theory Spec2Isabelle
  imports Main "HOL-Library.Sublist"
begin

section \<open>Text primitives of the Python runtime\<close>

text \<open>
  A Python \<open>str\<close> is modelled as the list of its code points, and the model covers the
  code points below 256 (the type \<open>char\<close>).  The character classes below are the ones
  the interpreter uses on that range: \<open>str.isspace\<close> and the regex class \<open>\s\<close> agree,
  \<open>\d\<close> is the ASCII digits, \<open>\w\<close> is \<open>str.isalnum\<close> plus the underscore.
\<close>

definition is_space :: "char \<Rightarrow> bool" where
  "is_space c = (c \<in> {CHR 0x09, CHR 0x0A, CHR 0x0B, CHR 0x0C, CHR 0x0D,
                        CHR 0x1C, CHR 0x1D, CHR 0x1E, CHR 0x1F, CHR 0x20, CHR 0x85, CHR 0xA0})"

definition is_digit :: "char \<Rightarrow> bool" where
  "is_digit c = (48 \<le> (of_char c :: nat) \<and> (of_char c :: nat) \<le> 57)"

text \<open>\<open>s.strip()\<close> and \<open>s.strip(chars)\<close>.\<close>

definition strip :: "string \<Rightarrow> string" where
  "strip s = rev (dropWhile is_space (rev (dropWhile is_space s)))"

definition strip_chars :: "string \<Rightarrow> string \<Rightarrow> string" where
  "strip_chars cs s =
     rev (dropWhile (\<lambda>c. c \<in> set cs) (rev (dropWhile (\<lambda>c. c \<in> set cs) s)))"

text \<open>\<open>sep.join(xs)\<close>.\<close>

fun join :: "string \<Rightarrow> string list \<Rightarrow> string" where
  "join sep [] = []"
| "join sep [x] = x"
| "join sep (x # y # ys) = x @ sep @ join sep (y # ys)"

text \<open>
  \<open>list(dict.fromkeys(xs))\<close>: the distinct elements in the order of their first
  occurrence.
\<close>

fun fromkeys :: "'a list \<Rightarrow> 'a list" where
  "fromkeys [] = []"
| "fromkeys (x # xs) = x # fromkeys (filter (\<lambda>y. y \<noteq> x) xs)"

section \<open>The sentence completion trimmer\<close>

subsection \<open>Splitting grouped citations\<close>

text \<open>The character class \<open>[0-9, ]\<close>.\<close>

definition in_group_class :: "char \<Rightarrow> bool" where
  "in_group_class c = (is_digit c \<or> c = CHR '','' \<or> c = CHR '' '')"

text \<open>
  The regex \<open>\[([0-9, ]+)\]\<close> tried at the head of a string: the text of group 1 and
  the text after the match.  The class excludes the closing bracket, so the greedy run
  is the only candidate.
\<close>

definition match_group :: "string \<Rightarrow> (string \<times> string) option" where
  "match_group s =
     (case s of
        [] \<Rightarrow> None
      | c # r \<Rightarrow>
          if c = CHR ''['' \<and> takeWhile in_group_class r \<noteq> [] then
            (case dropWhile in_group_class r of
               [] \<Rightarrow> None
             | d # t \<Rightarrow> if d = CHR '']'' then Some (takeWhile in_group_class r, t) else None)
          else None)"

text \<open>\<open>g.split(", ")\<close>, with the piece being read as accumulator.\<close>

fun split_comma_space :: "string \<Rightarrow> string \<Rightarrow> string list" where
  "split_comma_space cur (c # d # r) =
     (if c = CHR '','' \<and> d = CHR '' '' then cur # split_comma_space [] r
      else split_comma_space (cur @ [c]) (d # r))"
| "split_comma_space cur [c] = [cur @ [c]]"
| "split_comma_space cur [] = [cur]"

definition replace_with_individual_brackets :: "string \<Rightarrow> string" where
  "replace_with_individual_brackets g =
     join '' '' (map (\<lambda>n. ''['' @ n @ '']'') (split_comma_space [] g))"

lemma match_group_shorter: "match_group s = Some (g, t) \<Longrightarrow> length t < length s"
proof -
  assume a: "match_group s = Some (g, t)"
  then obtain c r where s: "s = c # r"
    by (cases s) (auto simp: match_group_def)
  from a s obtain d where "dropWhile in_group_class r = d # t"
    by (auto simp: match_group_def split: if_splits list.splits)
  then have "length (d # t) \<le> length r"
    by (metis length_dropWhile_le)
  with s show ?thesis by simp
qed

text \<open>\<open>re.sub(r"\[([0-9, ]+)\]", replace_with_individual_brackets, text)\<close>.\<close>

function split_groups :: "string \<Rightarrow> string" where
  "split_groups [] = []"
| "split_groups (c # r) =
     (case match_group (c # r) of
        Some (g, t) \<Rightarrow> replace_with_individual_brackets g @ split_groups t
      | None \<Rightarrow> c # split_groups r)"
  by pat_completeness auto
termination
  by (relation "measure length") (auto dest: match_group_shorter)

subsection \<open>Deduplicating adjacent citations\<close>

text \<open>
  The regex \<open>\[\d+\]\<close> tried at the head of a string: the matched marker and the text
  after it.
\<close>

definition match_marker :: "string \<Rightarrow> (string \<times> string) option" where
  "match_marker s =
     (case s of
        [] \<Rightarrow> None
      | c # r \<Rightarrow>
          if c = CHR ''['' \<and> takeWhile is_digit r \<noteq> [] then
            (case dropWhile is_digit r of
               [] \<Rightarrow> None
             | d # t \<Rightarrow>
                 if d = CHR '']'' then Some (CHR ''['' # takeWhile is_digit r @ '']'', t)
                 else None)
          else None)"

lemma match_marker_shorter: "match_marker s = Some (m, t) \<Longrightarrow> length t < length s"
proof -
  assume a: "match_marker s = Some (m, t)"
  then obtain c r where s: "s = c # r"
    by (cases s) (auto simp: match_marker_def)
  from a s obtain d where "dropWhile is_digit r = d # t"
    by (auto simp: match_marker_def split: if_splits list.splits)
  then have "length (d # t) \<le> length r"
    by (metis length_dropWhile_le)
  with s show ?thesis by simp
qed

text \<open>
  The regex \<open>(\[\d+\])+\<close> tried at the head of a string: the markers of the greedy
  run (none when there is no match) and the text after the run.
\<close>

function match_run :: "string \<Rightarrow> string list \<times> string" where
  "match_run s =
     (case match_marker s of
        None \<Rightarrow> ([], s)
      | Some (m, t) \<Rightarrow> (case match_run t of (ms, u) \<Rightarrow> (m # ms, u)))"
  by pat_completeness auto
termination
  by (relation "measure length") (auto dest: match_marker_shorter)

declare match_run.simps [simp del]

text \<open>\<open>re.findall(r"\[\d+\]", citations)\<close>.\<close>

function findall_marker :: "string \<Rightarrow> string list" where
  "findall_marker [] = []"
| "findall_marker (c # r) =
     (case match_marker (c # r) of
        Some (m, t) \<Rightarrow> m # findall_marker t
      | None \<Rightarrow> findall_marker r)"
  by pat_completeness auto
termination
  by (relation "measure length") (auto dest: match_marker_shorter)

text \<open>
  \<open>int(x.strip("[]"))\<close> on a marker: the decimal value of its digits.  (The markers
  come from \<open>findall_marker\<close>, so the stripped text is a non-empty digit string and
  the conversion does not raise.)
\<close>

definition digit_val :: "char \<Rightarrow> nat" where
  "digit_val c = of_char c - 48"

definition int_of_digits :: "string \<Rightarrow> nat" where
  "int_of_digits ds = foldl (\<lambda>a d. 10 * a + digit_val d) 0 ds"

definition marker_key :: "string \<Rightarrow> nat" where
  "marker_key x = int_of_digits (strip_chars ''[]'' x)"

text \<open>
  \<open>list(set(xs))\<close>.  A Python set of strings is iterated in the order of its hash
  table, which depends on the hash seed of the interpreter process: the source fixes
  only that every element comes once.  The order is a parameter \<open>set_list\<close> of the
  model, and \<open>set_iteration\<close> is all that is known of it.
\<close>

definition set_iteration :: "(string list \<Rightarrow> string list) \<Rightarrow> bool" where
  "set_iteration set_list = (\<forall>xs. distinct (set_list xs) \<and> set (set_list xs) = set xs)"

text \<open>
  \<open>deduplicate_group\<close>: the markers of the matched run, as a set, sorted by their
  numbers with the stable \<open>sorted\<close>, and joined.
\<close>

definition deduplicate_group :: "(string list \<Rightarrow> string list) \<Rightarrow> string \<Rightarrow> string" where
  "deduplicate_group set_list citations =
     concat (sort_key marker_key (set_list (findall_marker citations)))"

lemma match_run_shorter: "match_run s = (m # ms, t) \<Longrightarrow> length t < length s"
proof (induction s arbitrary: m ms t rule: match_run.induct)
  case (1 s)
  show ?case
  proof (cases "match_marker s")
    case None
    with "1.prems" show ?thesis by (simp add: match_run.simps [of s])
  next
    case (Some p)
    obtain m' t' where p: "p = (m', t')" by (cases p)
    obtain ms' u where r: "match_run t' = (ms', u)" by (cases "match_run t'")
    from "1.prems" Some p r have eq: "ms = ms'" "t = u"
      by (simp_all add: match_run.simps [of s])
    have lt: "length t' < length s"
      using Some p by (auto dest: match_marker_shorter)
    show ?thesis
    proof (cases ms')
      case Nil
      with r have "u = t'"
        by (cases "match_marker t'") (auto simp: match_run.simps [of t'] split: prod.splits)
      with eq lt show ?thesis by simp
    next
      case (Cons a as)
      with "1.IH" [OF Some p [symmetric]] r have "length u < length t'" by blast
      with eq lt show ?thesis by simp
    qed
  qed
qed

text \<open>\<open>re.sub(r"(\[\d+\])+", deduplicate_group, text)\<close>.\<close>

function dedupe_adjacent :: "(string list \<Rightarrow> string list) \<Rightarrow> string \<Rightarrow> string" where
  "dedupe_adjacent set_list [] = []"
| "dedupe_adjacent set_list (c # r) =
     (case match_run (c # r) of
        ([], _) \<Rightarrow> c # dedupe_adjacent set_list r
      | (m # ms, t) \<Rightarrow>
          deduplicate_group set_list (concat (m # ms)) @ dedupe_adjacent set_list t)"
  by pat_completeness auto
termination
  by (relation "measure (\<lambda>(set_list, s). length s)") (auto dest: match_run_shorter [OF sym])

subsection \<open>Cutting at the last sentence end\<close>

definition is_eos_punct :: "char \<Rightarrow> bool" where
  "is_eos_punct c = (c = CHR ''.'' \<or> c = CHR ''!'' \<or> c = CHR ''?'')"

text \<open>
  The part \<open>\s*(\[\d+\])?\s*\<close> of the end-of-sentence pattern, tried at the head of a
  string: the text after it.  Every piece is optional and greedy, so the first attempt of
  the matcher succeeds: all the white space, then a marker when one stands there, then
  all the white space.
\<close>

definition eos_tail :: "string \<Rightarrow> string" where
  "eos_tail r =
     (case match_marker (dropWhile is_space r) of
        Some (m, t) \<Rightarrow> dropWhile is_space t
      | None \<Rightarrow> dropWhile is_space r)"

lemma eos_tail_le: "length (eos_tail r) \<le> length r"
proof (cases "match_marker (dropWhile is_space r)")
  case None
  then show ?thesis by (simp add: eos_tail_def length_dropWhile_le)
next
  case (Some p)
  obtain m t where p: "p = (m, t)" by (cases p)
  have "length (dropWhile is_space t) \<le> length t" by (rule length_dropWhile_le)
  moreover have "length t < length (dropWhile is_space r)"
    using Some p by (auto dest: match_marker_shorter)
  moreover have "length (dropWhile is_space r) \<le> length r" by (rule length_dropWhile_le)
  ultimately show ?thesis using Some p by (simp add: eos_tail_def)
qed

text \<open>
  \<open>list(re.finditer(eos_pattern, text))\<close> with
  \<open>eos_pattern = r"([.!?])\s*(\[\d+\])?\s*"\<close>: the (start, end) offsets of the
  non-overlapping matches, from the left.  The first argument is the offset of the
  text still to be scanned.
\<close>

function finditer_eos :: "nat \<Rightarrow> string \<Rightarrow> (nat \<times> nat) list" where
  "finditer_eos pos [] = []"
| "finditer_eos pos (c # r) =
     (if is_eos_punct c then
        (pos, pos + (length (c # r) - length (eos_tail r)))
          # finditer_eos (pos + (length (c # r) - length (eos_tail r))) (eos_tail r)
      else finditer_eos (Suc pos) r)"
  by pat_completeness auto
termination
  by (relation "measure (\<lambda>(pos, s). length s)") (auto simp: eos_tail_le less_Suc_eq_le)

definition remove_uncompleted_sentences_with_citations ::
  "(string list \<Rightarrow> string list) \<Rightarrow> string \<Rightarrow> string" where
  "remove_uncompleted_sentences_with_citations set_list text =
     (let text1 = split_groups text;
          text2 = dedupe_adjacent set_list text1;
          matches = finditer_eos 0 text2
      in if matches \<noteq> [] then strip (take (snd (last matches)) text2) else text2)"

subsection \<open>Vocabulary for the properties of the trimmer\<close>

text \<open>
  The characters a marker \<open>[n]\<close> is made of, and the texts that are exactly one marker.
\<close>

definition is_marker_char :: "char \<Rightarrow> bool" where
  "is_marker_char c = (c = CHR ''['' \<or> c = CHR '']'' \<or> is_digit c)"

definition is_marker :: "string \<Rightarrow> bool" where
  "is_marker m = (match_marker m = Some (m, []))"

section \<open>The content sanitizer\<close>

definition LF :: char where
  "LF = CHR 0x0A"

definition CR :: char where
  "CR = CHR 0x0D"

text \<open>The line boundaries of \<open>str.splitlines\<close> (below code point 256).\<close>

definition is_linebreak :: "char \<Rightarrow> bool" where
  "is_linebreak c = (c \<in> {CHR 0x0A, CHR 0x0B, CHR 0x0C, CHR 0x0D,
                            CHR 0x1C, CHR 0x1D, CHR 0x1E, CHR 0x85})"

text \<open>
  \<open>paragraph.splitlines()\<close>, with the line being read as accumulator: a carriage return
  followed by a line feed is one boundary, and a boundary at the very end opens no
  further line.
\<close>

fun splitlines_from :: "string \<Rightarrow> string \<Rightarrow> string list" where
  "splitlines_from cur (c # d # r) =
     (if c = CR \<and> d = LF then cur # splitlines_from [] r
      else if is_linebreak c then cur # splitlines_from [] (d # r)
      else splitlines_from (cur @ [c]) (d # r))"
| "splitlines_from cur [c] = (if is_linebreak c then [cur] else [cur @ [c]])"
| "splitlines_from cur [] = (if cur = [] then [] else [cur])"

definition splitlines :: "string \<Rightarrow> string list" where
  "splitlines s = splitlines_from [] s"

text \<open>
  \<open>re.split(r"\n{2,}", content)\<close>, with the piece being read as accumulator: every
  maximal run of two or more line feeds is one separator.
\<close>

function re_split_blank :: "string \<Rightarrow> string \<Rightarrow> string list" where
  "re_split_blank cur [] = [cur]"
| "re_split_blank cur (c # r) =
     (if c = LF \<and> take 1 r = [LF]
      then cur # re_split_blank [] (dropWhile (\<lambda>x. x = LF) r)
      else re_split_blank (cur @ [c]) r)"
  by pat_completeness auto
termination
  by (relation "measure (\<lambda>(cur, s). length s)") (auto simp: length_dropWhile_le less_Suc_eq_le)

text \<open>The regex class \<open>\w\<close> and its complement within the non-blank characters.\<close>

definition is_word :: "char \<Rightarrow> bool" where
  "is_word c =
     (let n = of_char c :: nat
      in (48 \<le> n \<and> n \<le> 57) \<or> (65 \<le> n \<and> n \<le> 90) \<or> n = 95 \<or> (97 \<le> n \<and> n \<le> 122)
         \<or> n \<in> {170, 178, 179, 181, 185, 186, 188, 189, 190}
         \<or> (192 \<le> n \<and> n \<le> 214) \<or> (216 \<le> n \<and> n \<le> 246) \<or> 248 \<le> n)"

definition is_punct :: "char \<Rightarrow> bool" where
  "is_punct c = (\<not> is_word c \<and> \<not> is_space c)"

text \<open>
  \<open>re.sub(r"^\s*[^\w\s]+\s*$", "", line)\<close>.  The pattern is anchored at both ends and its
  three classes are disjoint, so it matches exactly when the line is white space, a
  non-empty run of punctuation, white space; the match then covers the whole line.
\<close>

definition match_orphan :: "string \<Rightarrow> bool" where
  "match_orphan line =
     (let r1 = dropWhile is_space line
      in takeWhile is_punct r1 \<noteq> [] \<and> dropWhile is_space (dropWhile is_punct r1) = [])"

definition sub_orphan :: "string \<Rightarrow> string" where
  "sub_orphan line = (if match_orphan line then [] else line)"

text \<open>
  The tail \<open>.*$\<close> of a pattern, tried at the head of a string: the dot stops at a line
  feed, and \<open>$\<close> holds at the end of the text or before a line feed that ends it.
\<close>

definition dot_star_end :: "string \<Rightarrow> bool" where
  "dot_star_end r = (dropWhile (\<lambda>c. c \<noteq> LF) r \<in> {[], [LF]})"

text \<open>\<open>re.match(r"^\s*<word>.*$", line)\<close> for a literal word that starts with no blank.\<close>

definition match_after_space :: "string \<Rightarrow> string \<Rightarrow> bool" where
  "match_after_space word line =
     (let r = dropWhile is_space line
      in prefix word r \<and> dot_star_end (drop (length word) r))"

text \<open>
  \<open>re.match(r"^\s*/\*.*?\*/\s*$", line)\<close>.  After the opening \<open>/*\<close> the lazy dot may stop
  at any \<open>*/\<close>, but only white space may follow up to the end: the closing \<open>*/\<close> is the
  last two characters before the trailing white space, and no line feed stands before
  it.
\<close>

definition match_block_comment :: "string \<Rightarrow> bool" where
  "match_block_comment line =
     (let r = dropWhile is_space line;
          body = drop 2 r;
          y = rev (dropWhile is_space (rev body))
      in prefix ''/*'' r \<and> suffix ''*/'' y \<and> LF \<notin> set (take (length y - 2) y))"

text \<open>The list \<open>artifact_patterns\<close>, each as the test \<open>re.match(pattern, line)\<close>.\<close>

definition artifact_patterns :: "(string \<Rightarrow> bool) list" where
  "artifact_patterns =
     [match_after_space ''//'',
      match_block_comment,
      match_after_space ''TODO:'',
      match_after_space ''FIXME:'',
      match_after_space ''DEBUG:'']"

fun drop_artifacts :: "(string \<Rightarrow> bool) list \<Rightarrow> string list \<Rightarrow> string list" where
  "drop_artifacts [] lines = lines"
| "drop_artifacts (pattern # ps) lines =
     drop_artifacts ps (filter (\<lambda>line. \<not> pattern line) lines)"

definition is_table :: "string list \<Rightarrow> bool" where
  "is_table lines = list_ex (\<lambda>line. CHR ''|'' \<in> set line) lines"

definition clean_paragraph :: "string \<Rightarrow> string" where
  "clean_paragraph paragraph =
     (let lines = splitlines paragraph
      in if is_table lines then join [LF] lines
         else
           (let lines1 = fromkeys lines;
                lines2 = map strip (filter (\<lambda>line. strip line \<noteq> []) lines1);
                lines3 = map sub_orphan lines2;
                lines4 = drop_artifacts artifact_patterns lines3
            in join '' '' lines4))"

definition preprocess_content :: "string \<Rightarrow> string list" where
  "preprocess_content content =
     map clean_paragraph (filter (\<lambda>p. strip p \<noteq> []) (re_split_blank [] content))"

section \<open>The markdown tree parser\<close>

text \<open>
  The parser builds nested dictionaries and keeps references to them on a stack, so
  the model has an explicit store: a section dictionary lives at an address (its index
  in the heap), and \<open>subsections\<close> maps a title to the address of the child.  A
  dictionary is an association list in insertion order.
\<close>

record section_node =
  content :: string
  subsections :: "(string \<times> nat) list"

type_synonym heap = "section_node list"

type_synonym path = "(nat \<times> int) list"

datatype py_error = IndexError

text \<open>
  \<open>d[k] = v\<close>: an existing key keeps its place and takes the new value, a new key goes
  to the end.
\<close>

fun dict_set :: "('k \<times> 'v) list \<Rightarrow> 'k \<Rightarrow> 'v \<Rightarrow> ('k \<times> 'v) list" where
  "dict_set [] k v = [(k, v)]"
| "dict_set ((k', v') # d) k v =
     (if k' = k then (k, v) # d else (k', v') # dict_set d k v)"

text \<open>\<open>line.count("#")\<close>.\<close>

definition count_hash :: "string \<Rightarrow> nat" where
  "count_hash line = length (filter (\<lambda>c. c = CHR ''#'') line)"

text \<open>
  \<open>while current_path and current_path[-1][1] >= level: current_path.pop()\<close>;
  the top of the stack is the last element.
\<close>

function pop_while :: "path \<Rightarrow> int \<Rightarrow> path" where
  "pop_while current_path level =
     (if current_path \<noteq> [] \<and> level \<le> snd (last current_path)
      then pop_while (butlast current_path) level
      else current_path)"
  by pat_completeness auto
termination
  by (relation "measure (\<lambda>(current_path, level). length current_path)") auto

declare pop_while.simps [simp del]

definition new_section :: section_node where
  "new_section = \<lparr>content = [], subsections = []\<rparr>"

text \<open>
  One round of the loop over the sanitized paragraphs.  \<open>current_path[-1]\<close> raises
  \<open>IndexError\<close> on an empty stack.  The fresh dictionary is allocated at the end of
  the heap.
\<close>

definition parse_line :: "heap \<times> path \<Rightarrow> string \<Rightarrow> py_error + heap \<times> path" where
  "parse_line st line =
     (case st of (h, current_path) \<Rightarrow>
        if prefix ''#'' line then
          (let level = int (count_hash line);
               title = strip (strip_chars ''# '' line);
               a = length h;
               current_path1 = pop_while current_path level
           in if current_path1 = [] then Inl IndexError
              else
                (let p = fst (last current_path1)
                 in Inr ((h[p := (h ! p)\<lparr>subsections :=
                                dict_set (subsections (h ! p)) title a\<rparr>]) @ [new_section],
                         current_path1 @ [(a, level)])))
        else if current_path = [] then Inl IndexError
        else
          (let p = fst (last current_path)
           in Inr (h[p := (h ! p)\<lparr>content := content (h ! p) @ line @ [LF, LF]\<rparr>],
                   current_path)))"

fun parse_lines :: "heap \<times> path \<Rightarrow> string list \<Rightarrow> py_error + heap \<times> path" where
  "parse_lines st [] = Inr st"
| "parse_lines st (line # ls) =
     (case parse_line st line of
        Inl e \<Rightarrow> Inl e
      | Inr st' \<Rightarrow> parse_lines st' ls)"

text \<open>
  The value the caller sees behind a reference: the dictionary at an address with the
  dictionaries it reaches, as a tree.  Every child is allocated after its parent, so
  its address is the larger one; the test on the addresses makes the recursion
  well-founded and holds in every heap the parser builds (\<open>heap_ok\<close> below).
\<close>

datatype section_tree = Section (sec_content: string) (sec_subsections: "(string \<times> section_tree) list")

function reify :: "heap \<Rightarrow> nat \<Rightarrow> section_tree" where
  "reify h a =
     Section (content (h ! a))
       (map (\<lambda>(t, b). (t, if a < b \<and> b < length h then reify h b else Section [] []))
          (subsections (h ! a)))"
  by pat_completeness auto
termination
  by (relation "measure (\<lambda>(h, a). length h - a)") auto

declare reify.simps [simp del]

definition initial_state :: "heap \<times> path" where
  "initial_state = ([new_section], [(0, - 1)])"

definition parse_article_into_dict :: "string \<Rightarrow> py_error + (string \<times> section_tree) list" where
  "parse_article_into_dict input_string =
     (case parse_lines initial_state (preprocess_content input_string) of
        Inl e \<Rightarrow> Inl e
      | Inr (h, current_path) \<Rightarrow> Inr (sec_subsections (reify h 0)))"

subsection \<open>Invariants of the parser state\<close>

text \<open>
  A heap is well formed when the titles of every dictionary are distinct and every
  child lives at a larger address than its parent, inside the heap.  A parser state is
  well formed when the stack is not empty, its bottom entry is the root with level
  \<open>-1\<close>, every address on it is allocated, and the heap is well formed.
\<close>

definition heap_ok :: "heap \<Rightarrow> bool" where
  "heap_ok h =
     list_all (\<lambda>a. distinct (map fst (subsections (h ! a)))
                  \<and> list_all (\<lambda>e. a < snd e \<and> snd e < length h) (subsections (h ! a)))
       [0..<length h]"

definition state_ok :: "heap \<times> path \<Rightarrow> bool" where
  "state_ok st =
     (case st of (h, current_path) \<Rightarrow>
        current_path \<noteq> [] \<and> hd current_path = (0, - 1)
        \<and> list_all (\<lambda>e. fst e < length h) current_path \<and> heap_ok h)"

section \<open>Remapping citation indices\<close>

text \<open>\<open>str(n)\<close> for an integer: the decimal digits, with a minus sign when negative.\<close>

definition digit_char :: "nat \<Rightarrow> char" where
  "digit_char d = char_of (48 + d)"

function show_nat :: "nat \<Rightarrow> string" where
  "show_nat n =
     (if n < 10 then [digit_char n] else show_nat (n div 10) @ [digit_char (n mod 10)])"
  by pat_completeness auto
termination
  by (relation "measure id") auto

declare show_nat.simps [simp del]

definition str_int :: "int \<Rightarrow> string" where
  "str_int i = (if i < 0 then CHR ''-'' # show_nat (nat (- i)) else show_nat (nat i))"

text \<open>
  \<open>s.replace(old, new)\<close>: the occurrences of \<open>old\<close> are taken from the left and do
  not overlap; an empty \<open>old\<close> matches before every character and at the end.
\<close>

function replace :: "string \<Rightarrow> string \<Rightarrow> string \<Rightarrow> string" where
  "replace [] old new = (if old = [] then new else [])"
| "replace (c # r) old new =
     (if old = [] then new @ c # replace r old new
      else if prefix old (c # r) then new @ replace (drop (length old) (c # r)) old new
      else c # replace r old new)"
  by pat_completeness auto
termination
  by (relation "measure (\<lambda>(s, old, new). length s)") (auto simp: Suc_le_eq)

text \<open>The two f-strings of \<open>update_citation_index\<close>.\<close>

definition marker :: "int \<Rightarrow> string" where
  "marker n = ''['' @ str_int n @ '']''"

definition placeholder :: "int \<Rightarrow> string" where
  "placeholder n = ''__PLACEHOLDER_'' @ str_int n @ ''__''"

text \<open>
  \<open>update_citation_index\<close>; the citation map is a dictionary from integers to
  integers, an association list in insertion order, and both loops run over it in
  that order.
\<close>

definition update_citation_index :: "string \<Rightarrow> (int \<times> int) list \<Rightarrow> string" where
  "update_citation_index s citation_map =
     (let s1 = fold (\<lambda>(original_citation, unify_citation) s.
                       replace s (marker original_citation) (placeholder original_citation))
                 citation_map s
      in fold (\<lambda>(original_citation, unify_citation) s.
                 replace s (placeholder original_citation) (marker unify_citation))
           citation_map s1)"

subsection \<open>The simultaneous rewriting the remap is meant to be\<close>

text \<open>
  What the remap is specified to compute, independently of the two passes of the code:
  one scan of the original text from the left; where the marker of a key of the table
  stands, the image of that key is written and the scan goes on behind the marker, any
  other character is copied.  Nothing that was written is read again.
\<close>

lemma marker_length: "length (marker k) = length (str_int k) + 2"
  by (simp add: marker_def)

function rewrite_markers :: "(int \<times> string) list \<Rightarrow> string \<Rightarrow> string" where
  "rewrite_markers table [] = []"
| "rewrite_markers table (c # r) =
     (case find (\<lambda>e. prefix (marker (fst e)) (c # r)) table of
        Some e \<Rightarrow> snd e @ rewrite_markers table (drop (length (marker (fst e))) (c # r))
      | None \<Rightarrow> c # rewrite_markers table r)"
  by pat_completeness auto
termination
  by (relation "measure (\<lambda>(table, s). length s)") (auto simp: marker_length)

text \<open>
  The remap of the specification: every occurrence of \<open>[old]\<close> becomes \<open>[new]\<close>, all at
  once.
\<close>

definition remap_simultaneous :: "string \<Rightarrow> (int \<times> int) list \<Rightarrow> string" where
  "remap_simultaneous s citation_map =
     rewrite_markers (map (\<lambda>(old, new). (old, marker new)) citation_map) s"

text \<open>
  The images a table holds while the code runs: the placeholder of the key, or a text
  that starts with an opening bracket and has no underscore (a final marker).
\<close>

definition image_ok :: "int \<times> string \<Rightarrow> bool" where
  "image_ok e =
     (snd e = placeholder (fst e) \<or> (CHR ''_'' \<notin> set (snd e) \<and> take 1 (snd e) = ''[''))"

section \<open>The claims on concrete inputs\<close>

text \<open>
  Claim C2, on the code.  The input \<open>"# A\n### B\ntext"\<close> has no blank line, so the
  sanitizer takes it as one paragraph and joins its three lines with spaces; the parser
  then sees the single heading line \<open>"# A ### B text"\<close>.  The result has one top-level
  key, \<open>"A ### B text"\<close>, with no subsections: there is no key \<open>"A"\<close> and no
  child \<open>"B"\<close>.
\<close>

theorem C2_depth_skip_on_code:
  "preprocess_content (''# A'' @ [LF] @ ''### B'' @ [LF] @ ''text'') = [''# A ### B text'']
   \<and> parse_article_into_dict (''# A'' @ [LF] @ ''### B'' @ [LF] @ ''text'')
       = Inr [(''A ### B text'', Section [] [])]"
  by code_simp

text \<open>
  Claim C4, on the code.  The level the parser gives a heading line is the number of
  all its \<open>#\<close> characters: the line \<open>"# C# notes"\<close> starts with one \<open>#\<close> and is
  pushed with level 2.
\<close>

theorem C4_level_counts_every_hash:
  "length (takeWhile (\<lambda>c. c = CHR ''#'') ''# C# notes'') = 1
   \<and> parse_line initial_state ''# C# notes''
       = Inr ([\<lparr>content = [], subsections = [(''C# notes'', 1)]\<rparr>, new_section],
              [(0, - 1), (1, 2)])"
  by code_simp

text \<open>
  Claim C6, on the code.  A line of punctuation only is replaced by the empty string
  after the blank lines have been filtered out, and the empty string is joined with the
  other lines: the paragraph \<open>"a\n---\nb"\<close> becomes \<open>"a  b"\<close>, with two spaces.
\<close>

theorem C6_blanked_line_is_joined:
  "clean_paragraph (''a'' @ [LF] @ ''---'' @ [LF] @ ''b'') = ''a  b''"
  by code_simp

text \<open>
  Claim C7, on the code.  A table paragraph is split into lines and joined again with
  line feeds.  The paragraph of the claim comes back as it is, but a table paragraph that
  ends with a line feed comes back without it.
\<close>

theorem C7_table_rejoined:
  "preprocess_content (''| a | b |'' @ [LF] @ ''| 1 | 2 |'')
     = [''| a | b |'' @ [LF] @ ''| 1 | 2 |'']
   \<and> preprocess_content (''| a | b |'' @ [LF] @ ''| 1 | 2 |'' @ [LF])
     = [''| a | b |'' @ [LF] @ ''| 1 | 2 |'']"
  by code_simp

section \<open>The parser never fails\<close>

lemma heap_ok_iff:
  "heap_ok h \<longleftrightarrow>
     (\<forall>a < length h. distinct (map fst (subsections (h ! a)))
        \<and> (\<forall>e \<in> set (subsections (h ! a)). a < snd e \<and> snd e < length h))"
  unfolding heap_ok_def list_all_iff Ball_def by simp

lemma heap_okD:
  assumes "heap_ok h" "a < length h" "(t, b) \<in> set (subsections (h ! a))"
  shows "a < b \<and> b < length h"
proof -
  from assms(1,2) have "\<forall>e \<in> set (subsections (h ! a)). a < snd e \<and> snd e < length h"
    by (simp add: heap_ok_iff)
  from this assms(3) have "a < snd (t, b) \<and> snd (t, b) < length h" by (rule bspec)
  then show ?thesis by simp
qed

lemma heap_ok_distinct:
  "heap_ok h \<Longrightarrow> a < length h \<Longrightarrow> distinct (map fst (subsections (h ! a)))"
  by (simp add: heap_ok_iff)

lemma keys_dict_set: "fst ` set (dict_set d k v) = insert k (fst ` set d)"
proof (induction d)
  case Nil
  then show ?case by simp
next
  case (Cons e d)
  obtain k' v' where e: "e = (k', v')" by (cases e)
  show ?case
  proof (cases "k' = k")
    case True
    with e show ?thesis by simp
  next
    case False
    with e Cons.IH show ?thesis by (simp add: insert_commute)
  qed
qed

lemma set_dict_set: "set (dict_set d k v) \<subseteq> insert (k, v) (set d)"
  by (induction d) (auto split: if_splits)

lemma distinct_dict_set: "distinct (map fst d) \<Longrightarrow> distinct (map fst (dict_set d k v))"
proof (induction d)
  case Nil
  then show ?case by simp
next
  case (Cons e d)
  obtain k' v' where e: "e = (k', v')" by (cases e)
  show ?case
  proof (cases "k' = k")
    case True
    with Cons.prems e show ?thesis by simp
  next
    case False
    have "k' \<notin> fst ` set (dict_set d k v)"
      using Cons.prems e False by (simp add: keys_dict_set)
    with Cons e False show ?thesis by simp
  qed
qed



lemma count_hash_heading: "prefix ''#'' line \<Longrightarrow> 1 \<le> count_hash line"
  by (cases line) (auto simp: count_hash_def)

lemma pop_while_keeps_root:
  "current_path \<noteq> [] \<Longrightarrow> snd (hd current_path) < level \<Longrightarrow>
   pop_while current_path level \<noteq> [] \<and> hd (pop_while current_path level) = hd current_path"
proof (induction current_path level rule: pop_while.induct)
  case (1 current_path level)
  show ?case
  proof (cases "level \<le> snd (last current_path)")
    case True
    have ne: "butlast current_path \<noteq> []"
    proof (cases current_path rule: rev_cases)
      case Nil
      with "1.prems" show ?thesis by simp
    next
      case (snoc ys y)
      with "1.prems" True show ?thesis by (cases ys) auto
    qed
    then have hdb: "hd (butlast current_path) = hd current_path"
      by (cases current_path) (auto split: if_splits)
    from "1.IH" [OF _ ne] "1.prems" True hdb
    have "pop_while (butlast current_path) level \<noteq> []
          \<and> hd (pop_while (butlast current_path) level) = hd current_path"
      by simp
    with "1.prems" True show ?thesis
      by (simp add: pop_while.simps [of current_path])
  next
    case False
    with "1.prems" show ?thesis by (simp add: pop_while.simps [of current_path])
  qed
qed

lemma set_pop_while: "set (pop_while current_path level) \<subseteq> set current_path"
proof (induction current_path level rule: pop_while.induct)
  case (1 current_path level)
  show ?case
  proof (cases "current_path \<noteq> [] \<and> level \<le> snd (last current_path)")
    case True
    with "1.IH" have "set (pop_while (butlast current_path) level) \<subseteq> set (butlast current_path)"
      by simp
    moreover have "set (butlast current_path) \<subseteq> set current_path"
      by (auto dest: in_set_butlastD)
    ultimately have "set (pop_while (butlast current_path) level) \<subseteq> set current_path"
      by (rule subset_trans)
    with True show ?thesis by (simp add: pop_while.simps [of current_path])
  next
    case False
    then show ?thesis by (subst pop_while.simps) auto
  qed
qed

lemma state_okI:
  "cp \<noteq> [] \<Longrightarrow> hd cp = (0, - 1) \<Longrightarrow> (\<And>e. e \<in> set cp \<Longrightarrow> fst e < length h) \<Longrightarrow> heap_ok h
   \<Longrightarrow> state_ok (h, cp)"
  by (simp add: state_ok_def list_all_iff)

lemma state_okD:
  assumes "state_ok (h, cp)"
  shows "cp \<noteq> []" and "hd cp = (0, - 1)" and "\<And>e. e \<in> set cp \<Longrightarrow> fst e < length h"
    and "heap_ok h"
  using assms by (simp_all add: state_ok_def list_all_iff)

lemma heap_ok_set_content:
  assumes "heap_ok h" "p < length h"
  shows "heap_ok (h[p := (h ! p)\<lparr>content := c\<rparr>])"
proof -
  have "\<And>a. a < length h \<Longrightarrow>
          subsections ((h[p := (h ! p)\<lparr>content := c\<rparr>]) ! a) = subsections (h ! a)"
    using assms(2) by (simp add: nth_list_update)
  with assms(1) show ?thesis by (simp add: heap_ok_iff)
qed

lemma heap_ok_insert_child:
  assumes ok: "heap_ok h" and p: "p < length h"
  shows "heap_ok ((h[p := (h ! p)\<lparr>subsections := dict_set (subsections (h ! p)) title (length h)\<rparr>])
                   @ [new_section])"
    (is "heap_ok ?h'")
proof -
  have len: "length ?h' = Suc (length h)" by simp
  have new: "subsections (?h' ! length h) = []"
    by (simp add: nth_append new_section_def)
  have atp: "subsections (?h' ! p) = dict_set (subsections (h ! p)) title (length h)"
    using p by (simp add: nth_append)
  have other: "\<And>a. a < length h \<Longrightarrow> a \<noteq> p \<Longrightarrow> subsections (?h' ! a) = subsections (h ! a)"
    by (simp add: nth_append)
  show ?thesis
    unfolding heap_ok_iff len
  proof (intro allI impI conjI ballI)
    fix a assume a: "a < Suc (length h)"
    show "distinct (map fst (subsections (?h' ! a)))"
    proof (cases "a = length h")
      case True
      with new show ?thesis by simp
    next
      case False
      with a have al: "a < length h" by simp
      show ?thesis
      proof (cases "a = p")
        case True
        with atp heap_ok_distinct [OF ok p] show ?thesis by (simp add: distinct_dict_set)
      next
        case False
        with other [OF al] heap_ok_distinct [OF ok al] show ?thesis by simp
      qed
    qed
  next
    fix a e assume a: "a < Suc (length h)" and e: "e \<in> set (subsections (?h' ! a))"
    obtain t b where tb: "e = (t, b)" by (cases e)
    have "a < b \<and> b < Suc (length h)"
    proof (cases "a = length h")
      case True
      with new e show ?thesis by simp
    next
      case False
      with a have al: "a < length h" by simp
      show ?thesis
      proof (cases "a = p")
        case True
        with atp e tb have "(t, b) \<in> insert (title, length h) (set (subsections (h ! p)))"
          using set_dict_set [of "subsections (h ! p)" title "length h"] by auto
        then show ?thesis
        proof
          assume "(t, b) = (title, length h)"
          with True p show ?thesis by simp
        next
          assume "(t, b) \<in> set (subsections (h ! p))"
          from heap_okD [OF ok p this] True show ?thesis by simp
        qed
      next
        case False
        with other [OF al] e tb have "(t, b) \<in> set (subsections (h ! a))" by simp
        from heap_okD [OF ok al this] show ?thesis by simp
      qed
    qed
    with tb show "a < snd e" and "snd e < Suc (length h)" by simp_all
  qed
qed

lemma parse_line_ok:
  assumes ok: "state_ok st"
  shows "\<exists>st'. parse_line st line = Inr st' \<and> state_ok st'"
proof -
  obtain h cp where st: "st = (h, cp)" by (cases st)
  note inv = state_okD [OF ok [unfolded st]]
  show ?thesis
  proof (cases "prefix ''#'' line")
    case True
    define level where "level = int (count_hash line)"
    define cp1 where "cp1 = pop_while cp level"
    define p where "p = fst (last cp1)"
    have "1 \<le> level" using count_hash_heading [OF True] by (simp add: level_def)
    with inv(2) have lt: "snd (hd cp) < level" by simp
    from pop_while_keeps_root [OF inv(1) lt]
    have ne: "cp1 \<noteq> []" and hd1: "hd cp1 = (0, - 1)" using inv(2) by (simp_all add: cp1_def)
    have sub: "set cp1 \<subseteq> set cp" by (simp add: cp1_def set_pop_while)
    have "last cp1 \<in> set cp" using ne sub by auto
    then have p: "p < length h" using inv(3) by (simp add: p_def)
    let ?h' = "(h[p := (h ! p)\<lparr>subsections := dict_set (subsections (h ! p))
                  (strip (strip_chars ''# '' line)) (length h)\<rparr>]) @ [new_section]"
    have res: "parse_line st line = Inr (?h', cp1 @ [(length h, level)])"
      using True ne by (simp add: parse_line_def st Let_def level_def cp1_def p_def)
    have "state_ok (?h', cp1 @ [(length h, level)])"
    proof (rule state_okI)
      show "cp1 @ [(length h, level)] \<noteq> []" by simp
      show "hd (cp1 @ [(length h, level)]) = (0, - 1)" using ne hd1 by simp
      show "heap_ok ?h'" by (rule heap_ok_insert_child [OF inv(4) p])
    next
      fix e assume "e \<in> set (cp1 @ [(length h, level)])"
      then have "e \<in> set cp \<or> e = (length h, level)" using sub by auto
      then show "fst e < length ?h'"
      proof
        assume "e \<in> set cp"
        from inv(3) [OF this] show ?thesis by simp
      next
        assume "e = (length h, level)"
        then show ?thesis by simp
      qed
    qed
    with res show ?thesis by blast
  next
    case False
    define p where "p = fst (last cp)"
    have "last cp \<in> set cp" using inv(1) by simp
    then have p: "p < length h" using inv(3) by (simp add: p_def)
    let ?h' = "h[p := (h ! p)\<lparr>content := content (h ! p) @ line @ [LF, LF]\<rparr>]"
    have res: "parse_line st line = Inr (?h', cp)"
      using False inv(1) by (simp add: parse_line_def st Let_def p_def)
    have "state_ok (?h', cp)"
    proof (rule state_okI)
      show "cp \<noteq> []" by (rule inv(1))
      show "hd cp = (0, - 1)" by (rule inv(2))
      show "heap_ok ?h'" by (rule heap_ok_set_content [OF inv(4) p])
    next
      fix e assume "e \<in> set cp"
      then show "fst e < length ?h'" using inv(3) by simp
    qed
    with res show ?thesis by blast
  qed
qed

lemma parse_lines_ok:
  "state_ok st \<Longrightarrow> \<exists>st'. parse_lines st ls = Inr st' \<and> state_ok st'"
proof (induction ls arbitrary: st)
  case Nil
  then show ?case by simp
next
  case (Cons line ls)
  from parse_line_ok [OF Cons.prems] obtain st1
    where s1: "parse_line st line = Inr st1" and ok1: "state_ok st1" by blast
  from Cons.IH [OF ok1] s1 show ?case by simp
qed

lemma initial_state_ok: "state_ok initial_state"
  by (simp add: initial_state_def state_ok_def heap_ok_def new_section_def)

lemma reify_children:
  "sec_subsections (reify h a) =
     map (\<lambda>(t, b). (t, if a < b \<and> b < length h then reify h b else Section [] []))
       (subsections (h ! a))"
  by (subst reify.simps) simp

lemma reify_keys: "map fst (sec_subsections (reify h a)) = map fst (subsections (h ! a))"
  by (simp add: reify_children case_prod_beta comp_def)

lemma reify_agree:
  assumes "heap_ok h" and "a < length h" and "length h \<le> length h'"
    and "\<And>i. a \<le> i \<Longrightarrow> i < length h \<Longrightarrow> h' ! i = h ! i"
  shows "reify h' a = reify h a"
  using assms(2,4)
proof (induction "length h - a" arbitrary: a rule: less_induct)
  case less
  have same: "h' ! a = h ! a" using less.prems by simp
  have "map (\<lambda>(t, b). (t, if a < b \<and> b < length h' then reify h' b else Section [] []))
          (subsections (h ! a))
        = map (\<lambda>(t, b). (t, if a < b \<and> b < length h then reify h b else Section [] []))
          (subsections (h ! a))"
  proof (rule map_cong [OF refl])
    fix e assume e: "e \<in> set (subsections (h ! a))"
    obtain t b where tb: "e = (t, b)" by (cases e)
    from heap_okD [OF assms(1) less.prems(1)] e tb have ab: "a < b" "b < length h" by auto
    have "reify h' b = reify h b"
    proof (rule less.hyps)
      show "length h - b < length h - a" using ab less.prems(1) by simp
      show "b < length h" by (rule ab(2))
    next
      fix i assume "b \<le> i" "i < length h"
      then show "h' ! i = h ! i" using ab less.prems(2) by simp
    qed
    with ab assms(3) tb
    show "(case e of (t, b) \<Rightarrow> (t, if a < b \<and> b < length h' then reify h' b else Section [] []))
        = (case e of (t, b) \<Rightarrow> (t, if a < b \<and> b < length h then reify h b else Section [] []))"
      by simp
  qed
  then show ?case
    by (subst reify.simps, subst (2) reify.simps) (simp add: same)
qed

lemma map_dict_set:
  "map (\<lambda>(t, b). (t, g b)) (dict_set d k v) = dict_set (map (\<lambda>(t, b). (t, g b)) d) k (g v)"
  by (induction d) auto

lemma dict_set_keys: "k \<in> fst ` set d \<Longrightarrow> map fst (dict_set d k v) = map fst d"
  by (induction d) force+

lemma dict_set_entry:
  "distinct (map fst d) \<Longrightarrow> filter (\<lambda>e. fst e = k) (dict_set d k v) = [(k, v)]"
proof (induction d)
  case Nil
  then show ?case by simp
next
  case (Cons e d)
  obtain k' v' where e: "e = (k', v')" by (cases e)
  show ?case
  proof (cases "k' = k")
    case True
    with Cons.prems e have "\<forall>x \<in> set d. fst x \<noteq> k" by auto
    then have "filter (\<lambda>e. fst e = k) d = []" by (simp add: filter_empty_conv)
    with True e show ?thesis by simp
  next
    case False
    with Cons e show ?thesis by simp
  qed
qed

lemma reify_new_section:
  "h ! a = new_section \<Longrightarrow> reify h a = Section [] []"
  by (subst reify.simps) (simp add: new_section_def)

lemma reify_after_heading:
  fixes h :: heap and p :: nat and title :: string
  assumes ok: "heap_ok h" and p: "p < length h"
  defines "h' \<equiv> (h[p := (h ! p)\<lparr>subsections := dict_set (subsections (h ! p)) title (length h)\<rparr>])
                   @ [new_section]"
  shows "sec_subsections (reify h' p)
           = dict_set (sec_subsections (reify h p)) title (Section [] [])"
proof -
  let ?g' = "\<lambda>b. if p < b \<and> b < length h' then reify h' b else Section [] []"
  let ?g = "\<lambda>b. if p < b \<and> b < length h then reify h b else Section [] []"
  have atp: "subsections (h' ! p) = dict_set (subsections (h ! p)) title (length h)"
    using p by (simp add: h'_def nth_append)
  have new: "?g' (length h) = Section [] []"
    using p by (simp add: h'_def reify_new_section nth_append)
  have old: "map (\<lambda>(t, b). (t, ?g' b)) (subsections (h ! p))
             = map (\<lambda>(t, b). (t, ?g b)) (subsections (h ! p))"
  proof (rule map_cong [OF refl])
    fix e assume e: "e \<in> set (subsections (h ! p))"
    obtain t b where tb: "e = (t, b)" by (cases e)
    from heap_okD [OF ok p] e tb have pb: "p < b" "b < length h" by auto
    have "reify h' b = reify h b"
    proof (rule reify_agree [OF ok pb(2)])
      show "length h \<le> length h'" by (simp add: h'_def)
    next
      fix i assume "b \<le> i" "i < length h"
      with pb show "h' ! i = h ! i" by (simp add: h'_def nth_append)
    qed
    with pb tb show "(case e of (t, b) \<Rightarrow> (t, ?g' b)) = (case e of (t, b) \<Rightarrow> (t, ?g b))"
      by (simp add: h'_def)
  qed
  have "sec_subsections (reify h' p)
          = map (\<lambda>(t, b). (t, ?g' b)) (dict_set (subsections (h ! p)) title (length h))"
    by (simp add: reify_children atp)
  also have "\<dots> = dict_set (map (\<lambda>(t, b). (t, ?g' b)) (subsections (h ! p))) title (?g' (length h))"
    by (rule map_dict_set)
  also have "\<dots> = dict_set (sec_subsections (reify h p)) title (Section [] [])"
    by (simp only: old new reify_children)
  finally show ?thesis .
qed


lemma reachable_ok: "parse_lines initial_state ls = Inr st \<Longrightarrow> state_ok st"
  using parse_lines_ok [OF initial_state_ok, of ls] by auto


text \<open>
  Claim C9.  The parser is total and never underflows its stack.  After any sequence of
  sanitized lines the loop has not raised, the stack is not empty and the virtual root,
  pushed with level \<open>-1\<close>, is still its bottom entry (a heading has level at least 1, so
  the pop loop stops at the root at the latest); hence \<open>parse_article_into_dict\<close>
  returns a mapping for every input string.
\<close>

theorem C9_parse_total:
  "(\<exists>h current_path.
       parse_lines initial_state ls = Inr (h, current_path)
     \<and> current_path \<noteq> [] \<and> hd current_path = (0, - 1))
   \<and> (\<exists>d. parse_article_into_dict input_string = Inr d)"
proof
  from parse_lines_ok [OF initial_state_ok, of ls] obtain st
    where r: "parse_lines initial_state ls = Inr st" and ok: "state_ok st" by blast
  obtain h cp where st: "st = (h, cp)" by (cases st)
  from state_okD(1,2) [OF ok [unfolded st]] r st
  show "\<exists>h current_path. parse_lines initial_state ls = Inr (h, current_path)
          \<and> current_path \<noteq> [] \<and> hd current_path = (0, - 1)"
    by blast
next
  from parse_lines_ok [OF initial_state_ok, of "preprocess_content input_string"] obtain st
    where r: "parse_lines initial_state (preprocess_content input_string) = Inr st" by blast
  obtain h cp where st: "st = (h, cp)" by (cases st)
  from r st show "\<exists>d. parse_article_into_dict input_string = Inr d"
    by (simp add: parse_article_into_dict_def)
qed


section \<open>A repeated sibling title\<close>

text \<open>
  Claim C8.  Let the parser, in a state it reaches, meet a heading line whose title is
  already a key of the children of the section it is inserted under (the top of the
  stack after the pop loop).  Then the insertion overwrites that entry: the children
  mapping is the old one with the title bound to a fresh empty section, no key is added
  and none moves, exactly one entry carries the title, and the section on top of the
  stack is the fresh empty one; the content and the subsections of the earlier section
  are gone from the tree.
\<close>

theorem C8_duplicate_title_overwrites:
  assumes reach: "parse_lines initial_state ls = Inr (h, current_path)"
    and heading: "prefix ''#'' line"
    and p: "p = fst (last (pop_while current_path (int (count_hash line))))"
    and title: "title = strip (strip_chars ''# '' line)"
    and dup: "title \<in> fst ` set (sec_subsections (reify h p))"
  shows "\<exists>h' current_path'.
           parse_line (h, current_path) line = Inr (h', current_path')
         \<and> sec_subsections (reify h' p)
             = dict_set (sec_subsections (reify h p)) title (Section [] [])
         \<and> map fst (sec_subsections (reify h' p)) = map fst (sec_subsections (reify h p))
         \<and> filter (\<lambda>e. fst e = title) (sec_subsections (reify h' p)) = [(title, Section [] [])]
         \<and> reify h' (fst (last current_path')) = Section [] []"
proof -
  have ok: "state_ok (h, current_path)" by (rule reachable_ok [OF reach])
  note inv = state_okD [OF ok]
  define level where "level = int (count_hash line)"
  define cp1 where "cp1 = pop_while current_path level"
  have "1 \<le> level" using count_hash_heading [OF heading] by (simp add: level_def)
  with inv(2) have lt: "snd (hd current_path) < level" by simp
  from pop_while_keeps_root [OF inv(1) lt] have ne: "cp1 \<noteq> []" by (simp add: cp1_def)
  have "set cp1 \<subseteq> set current_path" by (simp add: cp1_def set_pop_while)
  with ne have "last cp1 \<in> set current_path" by auto
  from inv(3) [OF this] have pl: "p < length h" by (simp add: p cp1_def level_def)
  define h' where "h' = (h[p := (h ! p)\<lparr>subsections :=
      dict_set (subsections (h ! p)) title (length h)\<rparr>]) @ [new_section]"
  have res: "parse_line (h, current_path) line = Inr (h', cp1 @ [(length h, level)])"
    using heading ne
    by (simp add: parse_line_def Let_def level_def cp1_def p title h'_def)
  have sub: "sec_subsections (reify h' p)
             = dict_set (sec_subsections (reify h p)) title (Section [] [])"
    unfolding h'_def by (rule reify_after_heading [OF inv(4) pl])
  have dist: "distinct (map fst (sec_subsections (reify h p)))"
    using heap_ok_distinct [OF inv(4) pl] by (simp add: reify_keys)
  have keys: "map fst (sec_subsections (reify h' p)) = map fst (sec_subsections (reify h p))"
    unfolding sub by (rule dict_set_keys [OF dup])
  have entry: "filter (\<lambda>e. fst e = title) (sec_subsections (reify h' p))
               = [(title, Section [] [])]"
    unfolding sub by (rule dict_set_entry [OF dist])
  have fresh: "reify h' (fst (last (cp1 @ [(length h, level)]))) = Section [] []"
    by (simp add: reify_new_section h'_def nth_append)
  from res sub keys entry fresh show ?thesis by blast
qed

theorem C8_duplicate_title_witness:
  "\<exists>h' current_path'.
     parse_line ([\<lparr>content = [], subsections = [(''A'', 1)]\<rparr>,
                  \<lparr>content = ''old'' @ [LF, LF], subsections = [(''S'', 2)]\<rparr>,
                  \<lparr>content = [], subsections = []\<rparr>],
                 [(0, - 1), (1, 1), (2, 2)]) ''# A'' = Inr (h', current_path')
   \<and> sec_subsections (reify h' 0)
       = dict_set (sec_subsections (reify [\<lparr>content = [], subsections = [(''A'', 1)]\<rparr>,
                  \<lparr>content = ''old'' @ [LF, LF], subsections = [(''S'', 2)]\<rparr>,
                  \<lparr>content = [], subsections = []\<rparr>] 0)) ''A'' (Section [] [])
   \<and> map fst (sec_subsections (reify h' 0))
       = map fst (sec_subsections (reify [\<lparr>content = [], subsections = [(''A'', 1)]\<rparr>,
                  \<lparr>content = ''old'' @ [LF, LF], subsections = [(''S'', 2)]\<rparr>,
                  \<lparr>content = [], subsections = []\<rparr>] 0))
   \<and> filter (\<lambda>e. fst e = ''A'') (sec_subsections (reify h' 0)) = [(''A'', Section [] [])]
   \<and> reify h' (fst (last current_path')) = Section [] []"
proof (rule C8_duplicate_title_overwrites [where ls = "[''# A'', ''old'', ''## S'']"])
  show "parse_lines initial_state [''# A'', ''old'', ''## S'']
        = Inr ([\<lparr>content = [], subsections = [(''A'', 1)]\<rparr>,
                  \<lparr>content = ''old'' @ [LF, LF], subsections = [(''S'', 2)]\<rparr>,
                  \<lparr>content = [], subsections = []\<rparr>],
                 [(0, - 1), (1, 1), (2, 2)])"
    by code_simp
  show "prefix ''#'' ''# A''" by simp
  show "0 = fst (last (pop_while [(0, - 1), (1, 1), (2, 2)] (int (count_hash ''# A''))))"
    by code_simp
  show "''A'' = strip (strip_chars ''# '' ''# A'')" by code_simp
  show "''A'' \<in> fst ` set (sec_subsections (reify [\<lparr>content = [], subsections = [(''A'', 1)]\<rparr>,
                  \<lparr>content = ''old'' @ [LF, LF], subsections = [(''S'', 2)]\<rparr>,
                  \<lparr>content = [], subsections = []\<rparr>] 0))"
    by code_simp
qed

section \<open>Markers and runs of markers\<close>

lemma set_fromkeys: "set (fromkeys xs) = set xs"
proof (induction xs rule: fromkeys.induct)
  case 1
  then show ?case by simp
next
  case (2 x xs)
  then show ?case by auto
qed

lemma distinct_fromkeys: "distinct (fromkeys xs)"
  by (induction xs rule: fromkeys.induct) (simp_all add: set_fromkeys)

lemma finditer_eos_none: "filter is_eos_punct s = [] \<Longrightarrow> finditer_eos pos s = []"
  by (induction s arbitrary: pos) (auto split: if_splits)

lemma not_digit_bracket [simp]: "\<not> is_digit CHR '']''" "\<not> is_digit CHR ''[''"
  by (simp_all add: is_digit_def)

lemma match_marker_SomeD:
  assumes "match_marker s = Some (m, t)"
  obtains ds where "ds \<noteq> []" and "\<forall>d \<in> set ds. is_digit d"
    and "m = CHR ''['' # ds @ '']''" and "s = m @ t"
proof -
  from assms obtain c r where s: "s = c # r"
    by (cases s) (auto simp: match_marker_def)
  from assms s have c: "c = CHR ''[''" and ne: "takeWhile is_digit r \<noteq> []"
    and d: "dropWhile is_digit r = CHR '']'' # t"
    and m: "m = CHR ''['' # takeWhile is_digit r @ '']''"
    by (auto simp: match_marker_def split: if_splits list.splits)
  have "r = takeWhile is_digit r @ dropWhile is_digit r" by simp
  with d have "r = takeWhile is_digit r @ CHR '']'' # t" by simp
  with s c m have "s = m @ t" by simp
  moreover have "\<forall>d \<in> set (takeWhile is_digit r). is_digit d" by (auto dest: set_takeWhileD)
  ultimately show ?thesis using that ne m by blast
qed

lemma match_marker_digits:
  assumes "ds \<noteq> []" and "\<forall>d \<in> set ds. is_digit d"
  shows "match_marker (CHR ''['' # ds @ CHR '']'' # x) = Some (CHR ''['' # ds @ '']'', x)"
proof -
  have "takeWhile is_digit (ds @ CHR '']'' # x) = ds"
    using assms(2) by (simp add: takeWhile_append2)
  moreover have "dropWhile is_digit (ds @ CHR '']'' # x) = CHR '']'' # x"
    using assms(2) by (simp add: dropWhile_append2)
  ultimately show ?thesis using assms(1) by (simp add: match_marker_def)
qed

lemma match_marker_same:
  assumes "match_marker s = Some (m, t)"
  shows "match_marker (m @ x) = Some (m, x)"
proof -
  from assms obtain ds where "ds \<noteq> []" "\<forall>d \<in> set ds. is_digit d" "m = CHR ''['' # ds @ '']''"
    by (rule match_marker_SomeD)
  with match_marker_digits [of ds x] show ?thesis by simp
qed

lemma is_marker_append: "is_marker m \<Longrightarrow> match_marker (m @ x) = Some (m, x)"
  unfolding is_marker_def by (rule match_marker_same)

lemma is_marker_Cons: "is_marker m \<Longrightarrow> \<exists>r. m = CHR ''['' # r"
  unfolding is_marker_def by (erule match_marker_SomeD) simp

lemma match_marker_is_marker: "match_marker s = Some (m, t) \<Longrightarrow> is_marker m"
  unfolding is_marker_def using match_marker_same [of s m t "[]"] by simp

lemma match_run_markers:
  assumes "\<forall>m \<in> set ms. is_marker m" and "match_marker rest = None"
  shows "match_run (concat ms @ rest) = (ms, rest)"
  using assms(1)
proof (induction ms)
  case Nil
  with assms(2) show ?case by (simp add: match_run.simps [of rest])
next
  case (Cons m ms)
  then have m: "match_marker (m @ concat ms @ rest) = Some (m, concat ms @ rest)"
    by (simp add: is_marker_append)
  from Cons have "match_run (concat ms @ rest) = (ms, rest)" by simp
  with m show ?case by (simp add: match_run.simps [of "m @ concat ms @ rest"])
qed

lemma findall_marker_markers:
  "\<forall>m \<in> set ms. is_marker m \<Longrightarrow> findall_marker (concat ms) = ms"
proof (induction ms)
  case Nil
  then show ?case by simp
next
  case (Cons m ms)
  then obtain r where r: "m = CHR ''['' # r" using is_marker_Cons [of m] by auto
  from Cons have m: "match_marker (m @ concat ms) = Some (m, concat ms)"
    by (simp add: is_marker_append)
  have "findall_marker (concat (m # ms)) = findall_marker (CHR ''['' # (r @ concat ms))"
    by (simp add: r)
  also have "\<dots> = m # findall_marker (concat ms)"
    using m by (simp add: r)
  finally show ?case using Cons by simp
qed

lemma set_iteration_fromkeys: "set_iteration fromkeys"
  by (simp add: set_iteration_def distinct_fromkeys set_fromkeys)

lemma set_iterationD:
  assumes "set_iteration set_list"
  shows "distinct (set_list xs)" and "set (set_list xs) = set xs"
  using assms by (simp_all add: set_iteration_def)

lemma set_iteration_single:
  assumes "set_iteration set_list"
  shows "set_list [m] = [m]"
proof -
  from set_iterationD [OF assms, of "[m]"]
  have d: "distinct (set_list [m])" and s: "set (set_list [m]) = {m}" by simp_all
  show ?thesis
  proof (cases "set_list [m]")
    case Nil
    with s show ?thesis by simp
  next
    case (Cons a r)
    with s have a: "a = m" and sub: "set r \<subseteq> {m}" by auto
    from d Cons a have "m \<notin> set r" by simp
    with sub have "r = []" by (cases r) auto
    with Cons a show ?thesis by simp
  qed
qed


lemma deduplicate_group_markers:
  assumes "\<forall>m \<in> set ms. is_marker m"
  shows "deduplicate_group set_list (concat ms) = concat (sort_key marker_key (set_list ms))"
  by (simp add: deduplicate_group_def findall_marker_markers [OF assms])

lemma split_groups_no_bracket: "CHR ''['' \<notin> set s \<Longrightarrow> split_groups s = s"
proof (induction s)
  case Nil
  then show ?case by simp
next
  case (Cons c r)
  then have "match_group (c # r) = None" by (auto simp: match_group_def)
  with Cons show ?case by simp
qed

lemma dedupe_adjacent_no_bracket: "CHR ''['' \<notin> set s \<Longrightarrow> dedupe_adjacent set_list s = s"
proof (induction s)
  case Nil
  then show ?case by simp
next
  case (Cons c r)
  then have "match_marker (c # r) = None" by (auto simp: match_marker_def)
  then have "match_run (c # r) = ([], c # r)" by (simp add: match_run.simps [of "c # r"])
  with Cons show ?case by simp
qed

lemma match_marker_sep:
  assumes "\<not> is_marker_char c"
  shows "match_marker (x @ c # v)
         = (case match_marker x of None \<Rightarrow> None | Some (m, t) \<Rightarrow> Some (m, t @ c # v))"
proof (cases x)
  case Nil
  with assms show ?thesis by (simp add: match_marker_def is_marker_char_def)
next
  case (Cons a r)
  from assms have c: "c \<noteq> CHR '']''" "\<not> is_digit c" by (simp_all add: is_marker_char_def)
  show ?thesis
  proof (cases "dropWhile is_digit r")
    case Nil
    then have all: "\<forall>d \<in> set r. is_digit d" by (simp add: dropWhile_eq_Nil_conv)
    then have "takeWhile is_digit (r @ c # v) = r" "dropWhile is_digit (r @ c # v) = c # v"
      using c by (simp_all add: takeWhile_append2 dropWhile_append2)
    with c Cons have "match_marker (x @ c # v) = None" by (simp add: match_marker_def)
    moreover have "match_marker x = None"
      using Nil Cons by (simp add: match_marker_def del: dropWhile_eq_Nil_conv)
    ultimately show ?thesis by simp
  next
    case (Cons d t)
    then have d: "d \<in> set r" "\<not> is_digit d"
      using set_dropWhileD [of d is_digit r] hd_dropWhile [of is_digit r] by auto
    then have "takeWhile is_digit (r @ c # v) = takeWhile is_digit r"
      and "dropWhile is_digit (r @ c # v) = dropWhile is_digit r @ c # v"
      by (simp_all add: takeWhile_append1 dropWhile_append1)
    with Cons \<open>x = a # r\<close> show ?thesis by (simp add: match_marker_def)
  qed
qed

lemma match_run_sep:
  assumes "\<not> is_marker_char c"
  shows "match_run (x @ c # v) = (fst (match_run x), snd (match_run x) @ c # v)"
proof (induction x rule: match_run.induct)
  case (1 s)
  show ?case
  proof (cases "match_marker s")
    case None
    then have "match_marker (s @ c # v) = None" by (simp add: match_marker_sep [OF assms])
    with None show ?thesis
      by (simp add: match_run.simps [of s] match_run.simps [of "s @ c # v"])
  next
    case (Some p)
    obtain m t where p: "p = (m, t)" by (cases p)
    from Some p have mm: "match_marker s = Some (m, t)" by simp
    then have mm': "match_marker (s @ c # v) = Some (m, t @ c # v)"
      by (simp add: match_marker_sep [OF assms])
    from "1.IH" [OF mm refl] mm mm' show ?thesis
      by (simp add: match_run.simps [of s] match_run.simps [of "s @ c # v"] split: prod.splits)
  qed
qed

lemma dedupe_adjacent_sep:
  assumes "\<not> is_marker_char c"
  shows "dedupe_adjacent set_list (u @ c # v)
         = dedupe_adjacent set_list u @ c # dedupe_adjacent set_list v"
proof (induction set_list u rule: dedupe_adjacent.induct)
  case (1 set_list)
  have "match_marker (c # v) = None"
    using assms by (simp add: match_marker_def is_marker_char_def)
  then have "match_run (c # v) = ([], c # v)" by (simp add: match_run.simps [of "c # v"])
  then show ?case by simp
next
  case (2 set_list a r)
  obtain ms t where r: "match_run (a # r) = (ms, t)" by (cases "match_run (a # r)")
  then have r': "match_run (a # r @ c # v) = (ms, t @ c # v)"
    using match_run_sep [OF assms, of "a # r" v] by simp
  show ?case
  proof (cases ms)
    case Nil
    from "2.IH"(1) [OF r [symmetric] Nil] r r' Nil show ?thesis by simp
  next
    case (Cons m ms')
    from "2.IH"(2) [OF r [symmetric] Cons] r r' Cons show ?thesis by simp
  qed
qed


lemma digit_char_props:
  assumes "d < 10"
  shows "is_digit (digit_char d)" and "digit_val (digit_char d) = d"
proof -
  have "of_char (digit_char d) = (48 + d :: nat)"
    using assms by (simp add: digit_char_def)
  then show "is_digit (digit_char d)" and "digit_val (digit_char d) = d"
    using assms by (simp_all add: is_digit_def digit_val_def)
qed

lemma show_nat_nonempty: "show_nat n \<noteq> []"
  by (subst show_nat.simps) simp

lemma show_nat_digits: "\<forall>d \<in> set (show_nat n). is_digit d"
proof (induction n rule: show_nat.induct)
  case (1 n)
  show ?case
  proof (cases "n < 10")
    case True
    then show ?thesis by (subst show_nat.simps) (simp add: digit_char_props)
  next
    case False
    have "n mod 10 < 10" by simp
    with "1.IH" [OF False] False show ?thesis
      by (subst show_nat.simps) (simp add: digit_char_props)
  qed
qed

lemma int_of_digits_snoc: "int_of_digits (ds @ [d]) = 10 * int_of_digits ds + digit_val d"
  by (simp add: int_of_digits_def)

lemma int_of_digits_show_nat: "int_of_digits (show_nat n) = n"
proof (induction n rule: show_nat.induct)
  case (1 n)
  show ?case
  proof (cases "n < 10")
    case True
    then show ?thesis
      by (subst show_nat.simps) (simp add: int_of_digits_def digit_char_props)
  next
    case False
    have "n mod 10 < 10" by simp
    with "1.IH" [OF False] False show ?thesis
      by (subst show_nat.simps) (simp add: int_of_digits_snoc digit_char_props)
  qed
qed

lemma marker_nat: "marker (int n) = CHR ''['' # show_nat n @ '']''"
  by (simp add: marker_def str_int_def)


lemma strip_chars_brackets:
  assumes "ds \<noteq> []" and "\<forall>d \<in> set ds. is_digit d"
  shows "strip_chars ''[]'' (CHR ''['' # ds @ '']'') = ds"
proof -
  obtain a r where ds: "ds = a # r" using assms(1) by (cases ds) auto
  obtain b q where rds: "rev ds = b # q" using assms(1) by (cases "rev ds") auto
  have na: "a \<noteq> CHR ''[''" "a \<noteq> CHR '']''" using assms(2) ds by auto
  have "b \<in> set ds" using rds by (metis list.set_intros(1) set_rev)
  then have nb: "b \<noteq> CHR ''[''" "b \<noteq> CHR '']''" using assms(2) by auto
  have "dropWhile (\<lambda>c. c \<in> set ''[]'') (CHR ''['' # ds @ '']'') = ds @ '']''"
    using na ds by simp
  moreover have "dropWhile (\<lambda>c. c \<in> set ''[]'') (rev (ds @ '']'')) = rev ds"
    using nb rds by simp
  ultimately show ?thesis by (simp add: strip_chars_def)
qed

lemma marker_key_marker: "marker_key (marker (int n)) = n"
  by (simp add: marker_key_def marker_nat
      strip_chars_brackets [OF show_nat_nonempty show_nat_digits] int_of_digits_show_nat)

lemma inj_marker_nat: "inj (\<lambda>n. marker (int n))"
  by (rule inj_on_inverseI [where g = marker_key]) (simp add: marker_key_marker)



lemma dedupe_adjacent_run:
  assumes ms: "\<forall>m \<in> set ms. is_marker m" and ne: "ms \<noteq> []"
    and rest: "match_marker rest = None"
  shows "dedupe_adjacent set_list (concat ms @ rest)
         = concat (sort_key marker_key (set_list ms)) @ dedupe_adjacent set_list rest"
proof -
  obtain m ms' where c: "ms = m # ms'" using ne by (cases ms) auto
  with ms obtain r where r: "m = CHR ''['' # r" using is_marker_Cons [of m] by auto
  have run: "match_run (concat ms @ rest) = (ms, rest)"
    by (rule match_run_markers [OF ms rest])
  have "concat ms @ rest = CHR ''['' # (r @ concat ms' @ rest)" by (simp add: c r)
  then have "dedupe_adjacent set_list (concat ms @ rest)
             = (case match_run (concat ms @ rest) of
                  ([], u) \<Rightarrow> CHR ''['' # dedupe_adjacent set_list (r @ concat ms' @ rest)
                | (m # ms, t) \<Rightarrow>
                    deduplicate_group set_list (concat (m # ms)) @ dedupe_adjacent set_list t)"
    by simp
  also have "\<dots> = deduplicate_group set_list (concat ms) @ dedupe_adjacent set_list rest"
    unfolding run by (simp add: c)
  finally show ?thesis by (simp add: deduplicate_group_markers [OF ms])
qed


lemma dedupe_adjacent_single:
  assumes "set_iteration set_list" and "is_marker m"
  shows "dedupe_adjacent set_list m = m"
proof -
  have none: "match_marker [] = None" by (simp add: match_marker_def)
  from assms(2) have "\<forall>x \<in> set [m]. is_marker x" by simp
  from dedupe_adjacent_run [OF this _ none, of set_list] show ?thesis
    by (simp add: set_iteration_single [OF assms(1)])
qed




section \<open>The trimmer on the inputs of the claims\<close>

lemma trim_unfold:
  assumes "split_groups x = x1" and "dedupe_adjacent set_list x1 = x2"
    and "(if finditer_eos 0 x2 \<noteq> [] then strip (take (snd (last (finditer_eos 0 x2))) x2)
          else x2) = y"
  shows "remove_uncompleted_sentences_with_citations set_list x = y"
  unfolding remove_uncompleted_sentences_with_citations_def Let_def assms(1,2)
  by (rule assms(3))

text \<open>
  Claim C5.  The trimmer applied to \<open>"Paris is the capital.[1] And unfinished"\<close>
  returns \<open>"Paris is the capital.[1]"\<close>, whatever the iteration order of sets: the text
  ends at the last match of a sentence terminator followed by optional white space and
  one citation marker, and the unfinished fragment after it is dropped.
\<close>

theorem C5_trim_example:
  assumes "set_iteration set_list"
  shows "remove_uncompleted_sentences_with_citations set_list
           ''Paris is the capital.[1] And unfinished''
         = ''Paris is the capital.[1]''"
proof (rule trim_unfold)
  show "split_groups ''Paris is the capital.[1] And unfinished''
        = ''Paris is the capital.[1] And unfinished''"
    by code_simp
next
  have dot: "\<not> is_marker_char CHR ''.''" and sp: "\<not> is_marker_char CHR '' ''"
    by (simp_all add: is_marker_char_def is_digit_def)
  have m: "is_marker ''[1]''" by code_simp
  have a: "dedupe_adjacent set_list ''Paris is the capital'' = ''Paris is the capital''"
    by (rule dedupe_adjacent_no_bracket) simp
  have b: "dedupe_adjacent set_list ''And unfinished'' = ''And unfinished''"
    by (rule dedupe_adjacent_no_bracket) simp
  have c: "dedupe_adjacent set_list ''[1]'' = ''[1]''"
    by (rule dedupe_adjacent_single [OF assms m])
  have "dedupe_adjacent set_list
          (''Paris is the capital'' @ CHR ''.'' # (''[1]'' @ CHR '' '' # ''And unfinished''))
        = ''Paris is the capital'' @ CHR ''.'' # (''[1]'' @ CHR '' '' # ''And unfinished'')"
    by (simp only: dedupe_adjacent_sep [OF dot] dedupe_adjacent_sep [OF sp] a b c)
  then show "dedupe_adjacent set_list ''Paris is the capital.[1] And unfinished''
             = ''Paris is the capital.[1] And unfinished''"
    by simp
next
  show "(if finditer_eos 0 ''Paris is the capital.[1] And unfinished'' \<noteq> []
         then strip (take (snd (last (finditer_eos 0 ''Paris is the capital.[1] And unfinished'')))
                ''Paris is the capital.[1] And unfinished'')
         else ''Paris is the capital.[1] And unfinished'')
        = ''Paris is the capital.[1]''"
    by code_simp
qed

theorem C5_trim_witness:
  "set_iteration fromkeys
   \<and> remove_uncompleted_sentences_with_citations fromkeys
         ''Paris is the capital.[1] And unfinished''
       = ''Paris is the capital.[1]''"
  using C5_trim_example [OF set_iteration_fromkeys] set_iteration_fromkeys by simp

text \<open>
  Claim C3, on the code.  The text \<open>"abc"\<close> has no sentence terminator; the pattern has no
  match, the cut is skipped, and the trimmer returns \<open>"abc"\<close>, not the empty string.
\<close>

theorem C3_unterminated_text_is_kept:
  "filter is_eos_punct ''abc'' = []
   \<and> remove_uncompleted_sentences_with_citations set_list ''abc'' = ''abc''"
proof
  show "filter is_eos_punct ''abc'' = []" by code_simp
next
  show "remove_uncompleted_sentences_with_citations set_list ''abc'' = ''abc''"
  proof (rule trim_unfold)
    show "split_groups ''abc'' = ''abc''" by code_simp
    show "dedupe_adjacent set_list ''abc'' = ''abc''"
      by (rule dedupe_adjacent_no_bracket) simp
    show "(if finditer_eos 0 ''abc'' \<noteq> []
           then strip (take (snd (last (finditer_eos 0 ''abc''))) ''abc'') else ''abc'') = ''abc''"
      by code_simp
  qed
qed

section \<open>Deduplication joins only adjacent markers\<close>



section \<open>The two passes of the remap\<close>

lemma str_int_nonempty: "str_int i \<noteq> []"
  by (simp add: str_int_def show_nat_nonempty)

lemma not_digit_misc: "\<not> is_digit CHR ''_''" "\<not> is_digit CHR ''-''"
  by (simp_all add: is_digit_def)

lemma str_int_plain:
  assumes "c \<in> set (str_int i)"
  shows "c \<noteq> CHR ''_''" and "c \<noteq> CHR ''[''" and "c \<noteq> CHR '']''"
proof -
  from assms have "is_digit c \<or> c = CHR ''-''"
    using show_nat_digits by (auto simp: str_int_def split: if_splits)
  then show "c \<noteq> CHR ''_''" and "c \<noteq> CHR ''[''" and "c \<noteq> CHR '']''"
    using not_digit_misc not_digit_bracket by auto
qed

lemma show_nat_inj: "show_nat a = show_nat b \<Longrightarrow> a = b"
  by (metis int_of_digits_show_nat)

lemma str_int_inj:
  assumes "str_int i = str_int j"
  shows "i = j"
proof -
  have minus: "\<And>n. CHR ''-'' \<notin> set (show_nat n)"
    using show_nat_digits not_digit_misc(2) by blast
  show ?thesis
  proof (cases "i < 0")
    case True
    show ?thesis
    proof (cases "j < 0")
      case j: True
      with True assms have "nat (- i) = nat (- j)" by (simp add: str_int_def show_nat_inj)
      with True j show ?thesis by simp
    next
      case False
      with True assms have "show_nat (nat j) = CHR ''-'' # show_nat (nat (- i))"
        by (simp add: str_int_def)
      then have "CHR ''-'' \<in> set (show_nat (nat j))" by simp
      with minus show ?thesis by blast
    qed
  next
    case False
    show ?thesis
    proof (cases "j < 0")
      case True
      with False assms have "CHR ''-'' \<in> set (show_nat (nat i))"
        by (simp add: str_int_def)
      with minus show ?thesis by blast
    next
      case j: False
      with False assms have "nat i = nat j" by (simp add: str_int_def show_nat_inj)
      with False j show ?thesis by simp
    qed
  qed
qed

lemma sep_unique:
  "t \<notin> set xs \<Longrightarrow> t \<notin> set ys \<Longrightarrow> prefix (xs @ [t]) (ys @ t # b) \<Longrightarrow> xs = ys"
proof (induction xs arbitrary: ys)
  case Nil
  then show ?case by (cases ys) auto
next
  case (Cons x xs)
  then show ?case by (cases ys) auto
qed

lemma marker_unfold: "marker k = CHR ''['' # str_int k @ '']''"
  by (simp add: marker_def)

lemma placeholder_unfold:
  "placeholder k = CHR ''_'' # CHR ''_'' # ''PLACEHOLDER'' @ CHR ''_'' # str_int k @ ''__''"
  by (simp add: placeholder_def)

lemma marker_prefix_unique:
  assumes "prefix (marker k) s" and "prefix (marker k') s"
  shows "k = k'"
proof -
  have one: "\<And>a b. prefix (marker a) (marker b) \<Longrightarrow> a = b"
  proof -
    fix a b assume "prefix (marker a) (marker b)"
    then have "prefix (str_int a @ '']'') (str_int b @ CHR '']'' # [])"
      by (simp add: marker_unfold)
    then have "str_int a = str_int b"
      using str_int_plain(3) by (intro sep_unique [of "CHR '']''"]) auto
    then show "a = b" by (rule str_int_inj)
  qed
  from assms have "prefix (marker k) (marker k') \<or> prefix (marker k') (marker k)"
    by (rule prefix_same_cases)
  with one show ?thesis by blast
qed

lemma placeholder_prefix_unique:
  assumes "prefix (placeholder k) (placeholder k' @ y)"
  shows "k = k'"
proof -
  from assms have "prefix (str_int k @ ''__'') (str_int k' @ ''__'' @ y)"
    by (simp add: placeholder_unfold)
  then have "prefix (str_int k @ ''_'') (str_int k' @ CHR ''_'' # (CHR ''_'' # y))"
    by (auto simp: prefix_def)
  then have "str_int k = str_int k'"
    using str_int_plain(1) by (intro sep_unique [of "CHR ''_''"]) auto
  then show ?thesis by (rule str_int_inj)
qed

lemma replace_hit:
  assumes "old \<noteq> []"
  shows "replace (old @ y) old new = new @ replace y old new"
proof -
  obtain c o' where o: "old = c # o'" using assms by (cases old) auto
  have "replace (c # (o' @ y)) (c # o') new = new @ replace (drop (length (c # o')) (c # (o' @ y))) (c # o') new"
    by (subst replace.simps) simp
  then show ?thesis by (simp add: o)
qed

lemma replace_skip:
  "old \<noteq> [] \<Longrightarrow> \<not> prefix old (c # t) \<Longrightarrow> replace (c # t) old new = c # replace t old new"
  by simp

lemma replace_skip_block:
  assumes "old \<noteq> []" and "\<forall>c \<in> set b. c \<noteq> hd old"
  shows "replace (b @ y) old new = b @ replace y old new"
  using assms(2)
proof (induction b)
  case Nil
  then show ?case by simp
next
  case (Cons c b)
  from assms(1) Cons.prems have "\<not> prefix old (c # b @ y)"
    by (cases old) auto
  with assms(1) Cons show ?case by simp
qed

lemma find_append_cases:
  "find P (xs @ ys) = (case find P xs of Some x \<Rightarrow> Some x | None \<Rightarrow> find P ys)"
  by (induction xs) auto

lemma find_SomeD: "find P xs = Some x \<Longrightarrow> P x \<and> x \<in> set xs"
  by (induction xs) (auto split: if_splits)

lemma rewrite_hit:
  assumes "find (\<lambda>e. prefix (marker (fst e)) s) table = Some e"
  shows "\<exists>s'. s = marker (fst e) @ s' \<and> rewrite_markers table s = snd e @ rewrite_markers table s'"
proof -
  from find_SomeD [OF assms] have p: "prefix (marker (fst e)) s" by simp
  then obtain s' where s': "s = marker (fst e) @ s'" by (auto simp: prefix_def)
  then obtain c r where cr: "s = c # r" by (cases s) (auto simp: marker_unfold)
  have "drop (length (marker (fst e))) s = s'" by (simp add: s')
  with assms cr have "rewrite_markers table s = snd e @ rewrite_markers table s'" by simp
  with s' show ?thesis by blast
qed

lemma rewrite_miss:
  "find (\<lambda>e. prefix (marker (fst e)) (c # r)) table = None
   \<Longrightarrow> rewrite_markers table (c # r) = c # rewrite_markers table r"
  by simp

lemma find_marker_not_bracket:
  "c \<noteq> CHR ''['' \<Longrightarrow> find (\<lambda>e. prefix (marker (fst e)) (c # r)) table = None"
  by (induction table) (auto simp: marker_unfold)

lemma rewrite_through:
  "\<forall>c \<in> set x. c \<noteq> CHR ''['' \<Longrightarrow> rewrite_markers table (x @ y) = x @ rewrite_markers table y"
  by (induction x) (simp_all add: find_marker_not_bracket)

lemma image_head:
  assumes "image_ok e"
  shows "(\<exists>y. snd e = CHR ''_'' # CHR ''_'' # y) \<or> (\<exists>y. snd e = CHR ''['' # y)"
proof -
  from assms have "snd e = placeholder (fst e) \<or> take 1 (snd e) = ''[''"
    by (auto simp: image_ok_def)
  then show ?thesis
  proof
    assume "snd e = placeholder (fst e)"
    then show ?thesis by (simp add: placeholder_unfold)
  next
    assume "take 1 (snd e) = ''[''"
    then show ?thesis by (cases "snd e") auto
  qed
qed

lemma rewrite_prefix_plain:
  assumes ok: "\<forall>e \<in> set table. image_ok e"
  shows "\<forall>c \<in> set x. c \<noteq> CHR ''_'' \<and> c \<noteq> CHR ''['' \<Longrightarrow> prefix x (rewrite_markers table r)
         \<Longrightarrow> \<exists>r'. r = x @ r' \<and> rewrite_markers table r = x @ rewrite_markers table r'"
proof (induction x arbitrary: r)
  case Nil
  then show ?case by simp
next
  case (Cons a x)
  from Cons.prems(1) have a: "a \<noteq> CHR ''_''" "a \<noteq> CHR ''[''" by simp_all
  show ?case
  proof (cases r)
    case Nil
    with Cons.prems(2) show ?thesis by simp
  next
    case (Cons c r0)
    show ?thesis
    proof (cases "find (\<lambda>e. prefix (marker (fst e)) (c # r0)) table")
      case (Some e)
      from find_SomeD [OF Some] ok have "image_ok e" by blast
      from image_head [OF this] obtain y where y: "snd e = CHR ''_'' # y \<or> snd e = CHR ''['' # y"
        by blast
      from rewrite_hit [OF Some] obtain s' where
        "rewrite_markers table (c # r0) = snd e @ rewrite_markers table s'" by blast
      with Cons.prems(2) \<open>r = c # r0\<close> y a show ?thesis by auto
    next
      case None
      then have rw: "rewrite_markers table (c # r0) = c # rewrite_markers table r0"
        by (rule rewrite_miss)
      with Cons.prems(2) \<open>r = c # r0\<close> have ac: "a = c" and p: "prefix x (rewrite_markers table r0)"
        by simp_all
      from Cons.prems(1) have "\<forall>c \<in> set x. c \<noteq> CHR ''_'' \<and> c \<noteq> CHR ''[''" by simp
      from Cons.IH [OF this p] obtain r' where
        "r0 = x @ r'" "rewrite_markers table r0 = x @ rewrite_markers table r'" by blast
      with rw ac \<open>r = c # r0\<close> show ?thesis by simp
    qed
  qed
qed

lemma rewrite_underscore:
  assumes ok: "\<forall>e \<in> set table. image_ok e"
    and pre: "prefix (CHR ''_'' # a # z) (rewrite_markers table r)" and a: "a \<noteq> CHR ''_''"
  shows "\<exists>r'. r = CHR ''_'' # r' \<and> prefix (a # z) (rewrite_markers table r')"
proof (cases r)
  case Nil
  with pre show ?thesis by simp
next
  case (Cons c r0)
  show ?thesis
  proof (cases "find (\<lambda>e. prefix (marker (fst e)) (c # r0)) table")
    case (Some e)
    from find_SomeD [OF Some] ok have "image_ok e" by blast
    from image_head [OF this]
    have "(\<exists>y. snd e = CHR ''_'' # CHR ''_'' # y) \<or> (\<exists>y. snd e = CHR ''['' # y)" .
    moreover from rewrite_hit [OF Some] obtain s' where
      "rewrite_markers table (c # r0) = snd e @ rewrite_markers table s'" by blast
    ultimately show ?thesis using pre Cons a by auto
  next
    case None
    then have "rewrite_markers table (c # r0) = c # rewrite_markers table r0"
      by (rule rewrite_miss)
    with pre Cons show ?thesis by simp
  qed
qed

lemma no_placeholder_word:
  assumes ok: "\<forall>e \<in> set table. image_ok e"
    and clean: "\<not> sublist ''PLACEHOLDER_'' r" and a: "a \<noteq> CHR ''_''"
  shows "\<not> prefix (''PLACEHOLDER'' @ CHR ''_'' # a # z) (rewrite_markers table r)"
proof
  assume p: "prefix (''PLACEHOLDER'' @ CHR ''_'' # a # z) (rewrite_markers table r)"
  then have pre: "prefix ''PLACEHOLDER'' (rewrite_markers table r)"
    by (rule append_prefixD)
  have plain: "\<forall>c \<in> set ''PLACEHOLDER''. c \<noteq> CHR ''_'' \<and> c \<noteq> CHR ''[''" by simp
  from rewrite_prefix_plain [OF ok plain pre] obtain r' where r': "r = ''PLACEHOLDER'' @ r'"
    and rw: "rewrite_markers table r = ''PLACEHOLDER'' @ rewrite_markers table r'"
    by (elim exE conjE)
  from p rw have "prefix (CHR ''_'' # a # z) (rewrite_markers table r')" by simp
  from rewrite_underscore [OF ok this a] obtain r'' where "r' = CHR ''_'' # r''" by blast
  with r' have "r = ''PLACEHOLDER_'' @ r''" by simp
  then have "sublist ''PLACEHOLDER_'' r" by (metis sublist_append_rightI)
  with clean show False by simp
qed

lemma no_placeholder_tail:
  assumes ok: "\<forall>e \<in> set table. image_ok e"
    and clean: "\<not> sublist ''PLACEHOLDER_'' r" and a: "a \<noteq> CHR ''_''"
  shows "\<not> prefix (CHR ''_'' # ''PLACEHOLDER'' @ CHR ''_'' # a # z) (rewrite_markers table r)"
proof
  assume "prefix (CHR ''_'' # ''PLACEHOLDER'' @ CHR ''_'' # a # z) (rewrite_markers table r)"
  then have "prefix (CHR ''_'' # CHR ''P'' # (''LACEHOLDER'' @ CHR ''_'' # a # z))
               (rewrite_markers table r)" by simp
  from rewrite_underscore [OF ok this] obtain r' where r': "r = CHR ''_'' # r'"
    and p: "prefix (CHR ''P'' # (''LACEHOLDER'' @ CHR ''_'' # a # z)) (rewrite_markers table r')"
    by auto
  from clean r' have "\<not> sublist ''PLACEHOLDER_'' r'" by (simp add: sublist_Cons_right)
  from no_placeholder_word [OF ok this a, of z] p show False by simp
qed

lemma placeholder_head: "placeholder k \<noteq> []" "hd (placeholder k) = CHR ''_''"
  by (simp_all add: placeholder_unfold)

lemma marker_head: "marker k \<noteq> []" "hd (marker k) = CHR ''[''"
  by (simp_all add: marker_unfold)

lemma placeholder_no_bracket: "\<forall>c \<in> set (placeholder k). c \<noteq> CHR ''[''"
  using str_int_plain(2) [of _ k] by (auto simp: placeholder_unfold)

lemma placeholder_block_skip:
  assumes ne: "k \<noteq> k'" and ok: "\<forall>e \<in> set table. image_ok e"
    and clean: "\<not> sublist ''PLACEHOLDER_'' s'"
  shows "replace (placeholder k' @ rewrite_markers table s') (placeholder k) new
         = placeholder k' @ replace (rewrite_markers table s') (placeholder k) new"
proof -
  define y where "y = rewrite_markers table s'"
  define old where "old = placeholder k"
  obtain a z where d: "str_int k = a # z" using str_int_nonempty [of k] by (cases "str_int k") auto
  then have a: "a \<noteq> CHR ''_''" using str_int_plain(1) [of a k] by simp
  obtain a' z' where d': "str_int k' = a' # z'"
    using str_int_nonempty [of k'] by (cases "str_int k'") auto
  then have a': "a' \<noteq> CHR ''_''" using str_int_plain(1) [of a' k'] by simp
  have old: "old = CHR ''_'' # CHR ''_'' # ''PLACEHOLDER'' @ CHR ''_'' # a # z @ ''__''"
    by (simp add: old_def placeholder_unfold d)
  have old_ne: "old \<noteq> []" and old_hd: "hd old = CHR ''_''" by (simp_all add: old)
  let ?t6 = "CHR ''_'' # y"
  let ?t5 = "CHR ''_'' # ?t6"
  let ?t4 = "str_int k' @ ?t5"
  let ?t3 = "CHR ''_'' # ?t4"
  let ?t2 = "''PLACEHOLDER'' @ ?t3"
  let ?t1 = "CHR ''_'' # ?t2"
  let ?t0 = "CHR ''_'' # ?t1"
  have t0: "placeholder k' @ y = ?t0" by (simp add: placeholder_unfold)
  have n0: "\<not> prefix old ?t0"
    using placeholder_prefix_unique [of k k' y] ne unfolding old_def t0 [symmetric] by blast
  have n1: "\<not> prefix old ?t1" by (simp add: old)
  have n3: "\<not> prefix old ?t3" using a' by (simp add: old d')
  have n5: "\<not> prefix old ?t5"
    using no_placeholder_word [OF ok clean a, of "z @ ''__''"] by (simp add: old y_def)
  have n6: "\<not> prefix old ?t6"
    using no_placeholder_tail [OF ok clean a, of "z @ ''__''"] by (simp add: old y_def)
  have s2: "\<forall>c \<in> set ''PLACEHOLDER''. c \<noteq> hd old" by (simp add: old_hd)
  have s4: "\<forall>c \<in> set (str_int k'). c \<noteq> hd old"
    using str_int_plain(1) [of _ k'] by (auto simp: old_hd)
  have "replace ?t0 old new = CHR ''_'' # replace ?t1 old new"
    by (rule replace_skip [OF old_ne n0])
  also have "replace ?t1 old new = CHR ''_'' # replace ?t2 old new"
    by (rule replace_skip [OF old_ne n1])
  also have "replace ?t2 old new = ''PLACEHOLDER'' @ replace ?t3 old new"
    by (rule replace_skip_block [OF old_ne s2])
  also have "replace ?t3 old new = CHR ''_'' # replace ?t4 old new"
    by (rule replace_skip [OF old_ne n3])
  also have "replace ?t4 old new = str_int k' @ replace ?t5 old new"
    by (rule replace_skip_block [OF old_ne s4])
  also have "replace ?t5 old new = CHR ''_'' # replace ?t6 old new"
    by (rule replace_skip [OF old_ne n5])
  also have "replace ?t6 old new = CHR ''_'' # replace y old new"
    by (rule replace_skip [OF old_ne n6])
  finally have "replace ?t0 old new = placeholder k' @ replace y old new"
    by (simp add: placeholder_unfold)
  then have "replace (placeholder k' @ y) old new = placeholder k' @ replace y old new"
    unfolding t0 .
  then show ?thesis unfolding y_def old_def .
qed

lemma replace_Nil: "old \<noteq> [] \<Longrightarrow> replace [] old new = []"
  by simp

lemma placeholder_image_ok: "snd e = placeholder (fst e) \<Longrightarrow> image_ok e"
  by (simp add: image_ok_def)

lemma marker_image_ok: "snd e = marker v \<Longrightarrow> image_ok e"
  using str_int_plain(1) [of _ v] by (auto simp: image_ok_def marker_unfold)

lemma marker_no_underscore: "\<forall>c \<in> set (marker v). c \<noteq> CHR ''_''"
  using str_int_plain(1) [of _ v] by (auto simp: marker_unfold)

lemma pass1_step:
  assumes ok: "\<forall>e \<in> set table. snd e = placeholder (fst e)"
  shows "replace (rewrite_markers table s) (marker k) (placeholder k)
         = rewrite_markers (table @ [(k, placeholder k)]) s"
proof (induction s rule: length_induct)
  case (1 s)
  note IH = "1.IH" [rule_format]
  let ?table' = "table @ [(k, placeholder k)]"
  have iok: "\<forall>e \<in> set table. image_ok e" using ok placeholder_image_ok by blast
  show ?case
  proof (cases s)
    case Nil
    then show ?thesis by (simp add: marker_head(1))
  next
    case (Cons c r)
    let ?P = "\<lambda>e. prefix (marker (fst e)) (c # r)"
    show ?thesis
    proof (cases "find ?P table")
      case (Some e)
      then have f': "find ?P ?table' = Some e" by (simp add: find_append_cases)
      from rewrite_hit [OF Some] obtain s' where s': "c # r = marker (fst e) @ s'"
        and rw: "rewrite_markers table (c # r) = snd e @ rewrite_markers table s'" by blast
      from rewrite_hit [OF f'] obtain s'' where s'': "c # r = marker (fst e) @ s''"
        and rw': "rewrite_markers ?table' (c # r) = snd e @ rewrite_markers ?table' s''" by blast
      from s' s'' have same: "s'' = s'" by simp
      have len: "length s' < length s" using s' Cons marker_head(1) [of "fst e"]
        by (metis length_append length_greater_0_conv less_add_same_cancel2)
      from find_SomeD [OF Some] ok have img: "snd e = placeholder (fst e)" by blast
      have "\<forall>c \<in> set (snd e). c \<noteq> hd (marker k)"
        using placeholder_no_bracket [of "fst e"] by (simp add: img marker_head(2))
      from replace_skip_block [OF marker_head(1) this]
      have "replace (snd e @ rewrite_markers table s') (marker k) (placeholder k)
            = snd e @ replace (rewrite_markers table s') (marker k) (placeholder k)" .
      with IH [OF len] rw rw' same Cons show ?thesis by simp
    next
      case None
      then have rw: "rewrite_markers table (c # r) = c # rewrite_markers table r"
        by (rule rewrite_miss)
      have len: "length r < length s" using Cons by simp
      show ?thesis
      proof (cases "prefix (marker k) (c # r)")
        case True
        with None have f': "find ?P ?table' = Some (k, placeholder k)"
          by (simp add: find_append_cases)
        from rewrite_hit [OF f', unfolded fst_conv snd_conv]
        obtain s' where s': "c # r = marker k @ s'"
          and rw': "rewrite_markers ?table' (c # r) = placeholder k @ rewrite_markers ?table' s'"
          by (elim exE conjE)
        from s' have c: "c = CHR ''[''" and r: "r = (str_int k @ '']'') @ s'"
          by (simp_all add: marker_unfold)
        have "\<forall>c \<in> set (str_int k @ '']''). c \<noteq> CHR ''[''"
          using str_int_plain(2) [of _ k] by auto
        from rewrite_through [OF this]
        have "rewrite_markers table r = (str_int k @ '']'') @ rewrite_markers table s'"
          unfolding r .
        with rw c have "rewrite_markers table (c # r) = marker k @ rewrite_markers table s'"
          by (simp add: marker_unfold)
        moreover have "length s' < length s" using r len by simp
        ultimately show ?thesis
          using IH [of s'] rw' Cons by (simp add: replace_hit [OF marker_head(1)])
      next
        case False
        with None have f': "find ?P ?table' = None" by (simp add: find_append_cases)
        then have rw': "rewrite_markers ?table' (c # r) = c # rewrite_markers ?table' r"
          by (rule rewrite_miss)
        have "\<not> prefix (marker k) (c # rewrite_markers table r)"
        proof
          assume p: "prefix (marker k) (c # rewrite_markers table r)"
          then have c: "c = CHR ''[''" and p': "prefix (str_int k @ '']'') (rewrite_markers table r)"
            by (simp_all add: marker_unfold)
          have "\<forall>c \<in> set (str_int k @ '']''). c \<noteq> CHR ''_'' \<and> c \<noteq> CHR ''[''"
            using str_int_plain(1,2) [of _ k] by auto
          from rewrite_prefix_plain [OF iok this p'] obtain r' where "r = (str_int k @ '']'') @ r'"
            by blast
          with c have "prefix (marker k) (c # r)" by (simp add: marker_unfold)
          with False show False by simp
        qed
        from replace_skip [OF marker_head(1) this] IH [OF len] rw rw' Cons
        show ?thesis by simp
      qed
    qed
  qed
qed

lemma pass2_step:
  assumes A: "\<forall>e \<in> set A. \<exists>v. snd e = marker v"
    and B: "\<forall>e \<in> set B. snd e = placeholder (fst e)"
  shows "\<not> sublist ''PLACEHOLDER_'' s \<Longrightarrow>
         replace (rewrite_markers (A @ (k, placeholder k) # B) s) (placeholder k) (marker v)
         = rewrite_markers (A @ (k, marker v) # B) s"
proof (induction s rule: length_induct)
  case (1 s)
  note IH = "1.IH" [rule_format]
  note clean = "1.prems"
  let ?table = "A @ (k, placeholder k) # B"
  let ?table' = "A @ (k, marker v) # B"
  let ?old = "placeholder k"
  let ?goal = "replace (rewrite_markers ?table s) ?old (marker v) = rewrite_markers ?table' s"
  have iok: "\<forall>e \<in> set ?table. image_ok e"
    using A B placeholder_image_ok marker_image_ok by auto
  note old_ne = placeholder_head(1) [of k]
  show ?case
  proof (cases s)
    case Nil
    then show ?thesis by (simp add: old_ne)
  next
    case (Cons c r)
    let ?P = "\<lambda>e. prefix (marker (fst e)) (c # r)"
    have tail_clean: "\<And>u t. c # r = u @ t \<Longrightarrow> \<not> sublist ''PLACEHOLDER_'' t"
    proof -
      fix u t assume "c # r = u @ t"
      then have "sublist t s" using Cons by (metis sublist_append_leftI)
      with clean show "\<not> sublist ''PLACEHOLDER_'' t"
        using sublist_order.order_trans by blast
    qed
    have step: "\<And>e e'. find ?P ?table = Some e \<Longrightarrow> find ?P ?table' = Some e' \<Longrightarrow> fst e' = fst e
        \<Longrightarrow> (\<And>t. replace (snd e @ t) ?old (marker v) = snd e' @ replace t ?old (marker v))
        \<Longrightarrow> ?goal"
    proof -
      fix e e' assume f: "find ?P ?table = Some e" and f': "find ?P ?table' = Some e'"
        and k: "fst e' = fst e"
        and rp: "\<And>t. replace (snd e @ t) ?old (marker v) = snd e' @ replace t ?old (marker v)"
      from rewrite_hit [OF f] obtain s' where s': "c # r = marker (fst e) @ s'"
        and rw: "rewrite_markers ?table (c # r) = snd e @ rewrite_markers ?table s'" by blast
      from rewrite_hit [OF f'] obtain s'' where s'': "c # r = marker (fst e') @ s''"
        and rw': "rewrite_markers ?table' (c # r) = snd e' @ rewrite_markers ?table' s''" by blast
      from s' s'' k have same: "s'' = s'" by simp
      have len: "length s' < length s" using s' Cons marker_head(1) [of "fst e"]
        by (metis length_append length_greater_0_conv less_add_same_cancel2)
      from IH [OF len tail_clean [OF s']] rw rw' same rp Cons show ?goal by simp
    qed
    show ?thesis
    proof (cases "find ?P A")
      case (Some e)
      then have f: "find ?P ?table = Some e" and f': "find ?P ?table' = Some e"
        by (simp_all add: find_append_cases)
      from find_SomeD [OF Some] A obtain v' where "snd e = marker v'" by blast
      then have "\<forall>c \<in> set (snd e). c \<noteq> hd ?old"
        using marker_no_underscore [of v'] by (simp add: placeholder_head(2))
      from step [OF f f' refl replace_skip_block [OF old_ne this]] show ?thesis .
    next
      case None
      show ?thesis
      proof (cases "prefix (marker k) (c # r)")
        case True
        with None have f: "find ?P ?table = Some (k, placeholder k)"
          and f': "find ?P ?table' = Some (k, marker v)"
          by (simp_all add: find_append_cases)
        have "\<And>t. replace (snd (k, placeholder k) @ t) ?old (marker v)
                   = snd (k, marker v) @ replace t ?old (marker v)"
          by (simp add: replace_hit [OF old_ne])
        from step [OF f f' _ this] show ?thesis by simp
      next
        case False
        show ?thesis
        proof (cases "find ?P B")
          case (Some e)
          with None False have f: "find ?P ?table = Some e" and f': "find ?P ?table' = Some e"
            by (simp_all add: find_append_cases)
          from find_SomeD [OF Some] B have img: "snd e = placeholder (fst e)"
            and p: "prefix (marker (fst e)) (c # r)" by auto
          from p False have ne: "k \<noteq> fst e" by auto
          from rewrite_hit [OF f] obtain s' where s': "c # r = marker (fst e) @ s'"
            and rw: "rewrite_markers ?table (c # r) = snd e @ rewrite_markers ?table s'" by blast
          from rewrite_hit [OF f'] obtain s'' where s'': "c # r = marker (fst e) @ s''"
            and rw': "rewrite_markers ?table' (c # r) = snd e @ rewrite_markers ?table' s''"
            by blast
          from s' s'' have same: "s'' = s'" by simp
          have len: "length s' < length s" using s' Cons marker_head(1) [of "fst e"]
            by (metis length_append length_greater_0_conv less_add_same_cancel2)
          have cl: "\<not> sublist ''PLACEHOLDER_'' s'" by (rule tail_clean [OF s'])
          from placeholder_block_skip [OF ne iok cl, of "marker v"]
          have "replace (snd e @ rewrite_markers ?table s') ?old (marker v)
                = snd e @ replace (rewrite_markers ?table s') ?old (marker v)"
            by (simp only: img)
          with IH [OF len cl] rw rw' same Cons show ?thesis by simp
        next
          case none: None
          with None False have f: "find ?P ?table = None" and f': "find ?P ?table' = None"
            by (simp_all add: find_append_cases)
          then have rw: "rewrite_markers ?table (c # r) = c # rewrite_markers ?table r"
            and rw': "rewrite_markers ?table' (c # r) = c # rewrite_markers ?table' r"
            by (simp_all only: rewrite_miss)
          have len: "length r < length s" using Cons by simp
          have cl: "\<not> sublist ''PLACEHOLDER_'' r" using tail_clean [of "[c]" r] by simp
          obtain a z where d: "str_int k = a # z"
            using str_int_nonempty [of k] by (cases "str_int k") auto
          then have a: "a \<noteq> CHR ''_''" using str_int_plain(1) [of a k] by simp
          have "\<not> prefix ?old (c # rewrite_markers ?table r)"
            using no_placeholder_tail [OF iok cl a, of "z @ ''__''"]
            by (simp add: placeholder_unfold d)
          from replace_skip [OF old_ne this] IH [OF len cl] rw rw' Cons
          show ?thesis by simp
        qed
      qed
    qed
  qed
qed

lemma rewrite_markers_empty: "rewrite_markers [] s = s"
  by (induction s) simp_all

lemma pass1:
  "fold (\<lambda>(original_citation, unify_citation) s.
           replace s (marker original_citation) (placeholder original_citation)) m2
     (rewrite_markers (map (\<lambda>(k, v). (k, placeholder k)) m1) s)
   = rewrite_markers (map (\<lambda>(k, v). (k, placeholder k)) (m1 @ m2)) s"
proof (induction m2 arbitrary: m1)
  case Nil
  then show ?case by simp
next
  case (Cons e m2)
  obtain k v where e: "e = (k, v)" by (cases e)
  have ok: "\<forall>e \<in> set (map (\<lambda>(k, v). (k, placeholder k)) m1). snd e = placeholder (fst e)"
    by auto
  from pass1_step [OF ok, of s k] Cons.IH [of "m1 @ [(k, v)]"] e show ?case by simp
qed

lemma pass2:
  assumes clean: "\<not> sublist ''PLACEHOLDER_'' s"
  shows "fold (\<lambda>(original_citation, unify_citation) s.
                 replace s (placeholder original_citation) (marker unify_citation)) m2
           (rewrite_markers (map (\<lambda>(k, v). (k, marker v)) m1
                             @ map (\<lambda>(k, v). (k, placeholder k)) m2) s)
         = rewrite_markers (map (\<lambda>(k, v). (k, marker v)) (m1 @ m2)) s"
proof (induction m2 arbitrary: m1)
  case Nil
  then show ?case by simp
next
  case (Cons e m2)
  obtain k v where e: "e = (k, v)" by (cases e)
  have A: "\<forall>e \<in> set (map (\<lambda>(k, v). (k, marker v)) m1). \<exists>v. snd e = marker v" by auto
  have B: "\<forall>e \<in> set (map (\<lambda>(k, v). (k, placeholder k)) m2). snd e = placeholder (fst e)"
    by auto
  from pass2_step [OF A B clean, of k v] Cons.IH [of "m1 @ [(k, v)]"] e show ?case by simp
qed


text \<open>
  Claim C1 as stated fails on texts that already hold placeholder text.  In
  \<open>"__PLACEHOLDER_1[1]"\<close> with the map \<open>{1: 9}\<close> the first pass turns the marker into
  \<open>__PLACEHOLDER_1__\<close>, and the second pass finds the placeholder one position too
  early, across the border between the old text and the inserted one: the marker is not
  rewritten in place.  In \<open>"__PLACEHOLDER_1__"\<close> with \<open>{1: 2}\<close> a text without any marker
  is rewritten.
\<close>

theorem C1_counterexample:
  "update_citation_index ''__PLACEHOLDER_1[1]'' [(1, 9)] = ''[9]PLACEHOLDER_1__''
   \<and> remap_simultaneous ''__PLACEHOLDER_1[1]'' [(1, 9)] = ''__PLACEHOLDER_1[9]''
   \<and> update_citation_index ''__PLACEHOLDER_1__'' [(1, 2)] = ''[2]''
   \<and> remap_simultaneous ''__PLACEHOLDER_1__'' [(1, 2)] = ''__PLACEHOLDER_1__''"
  by code_simp


text \<open>
  Claim C1, amended.  For every text \<open>s\<close> in which the word \<open>PLACEHOLDER_\<close> does not
  occur, and every citation map, \<open>update_citation_index\<close> rewrites every occurrence
  of \<open>[old]\<close> to \<open>[new]\<close> simultaneously, without double substitution, also when old and
  new indices overlap; in particular \<open>update_citation_index("a[1]b[2]c", {1: 2, 2: 1})\<close>
  is \<open>"a[2]b[1]c"\<close>.
\<close>

theorem C1_remap_simultaneous:
  assumes "\<not> sublist ''PLACEHOLDER_'' s"
  shows "update_citation_index s citation_map = remap_simultaneous s citation_map
       \<and> update_citation_index ''a[1]b[2]c'' [(1, 2), (2, 1)] = ''a[2]b[1]c''"
proof -
  have "update_citation_index s citation_map = remap_simultaneous s citation_map"
    using pass1 [of citation_map "[]" s] pass2 [OF assms, of citation_map "[]"]
    by (simp add: update_citation_index_def remap_simultaneous_def rewrite_markers_empty)
  moreover have "update_citation_index ''a[1]b[2]c'' [(1, 2), (2, 1)] = ''a[2]b[1]c''"
    by code_simp
  ultimately show ?thesis by simp
qed

theorem C1_remap_witness:
  "\<not> sublist ''PLACEHOLDER_'' ''x_y [1] and [2], [12]''
   \<and> update_citation_index ''x_y [1] and [2], [12]'' [(1, 2), (2, 1), (12, 3)]
       = remap_simultaneous ''x_y [1] and [2], [12]'' [(1, 2), (2, 1), (12, 3)]
   \<and> update_citation_index ''x_y [1] and [2], [12]'' [(1, 2), (2, 1), (12, 3)]
       = ''x_y [2] and [1], [3]''"
proof -
  have h: "\<not> sublist ''PLACEHOLDER_'' ''x_y [1] and [2], [12]''" by code_simp
  have v: "remap_simultaneous ''x_y [1] and [2], [12]'' [(1, 2), (2, 1), (12, 3)]
           = ''x_y [2] and [1], [3]''" by code_simp
  from C1_remap_simultaneous [OF h, of "[(1, 2), (2, 1), (12, 3)]"] h v show ?thesis by simp
qed

end
